theory Spec2Isabelle
  imports Complex_Main "HOL-Library.AList"
begin

section \<open>Lean construction schedule simulation (leanconstruction.py)\<close>

text \<open>
  The program is one Python module.  Python exceptions are modelled as values of the type
  \<open>error\<close>, the process-wide generator of module \<open>random\<close> as the stream of values that
  successive calls of \<open>random.random()\<close> will return, threaded through every function that
  draws.  Numbers are reals.  The arithmetic inside \<open>simulate_project\<close> is exact; the
  running sum and the quotients of \<open>run_monte_carlo_simulation\<close> are rounded to binary64
  floats as the interpreter does, since the order between the mean it reports and the
  minimum and maximum depends on that rounding.
\<close>

subsection \<open>Exceptions\<close>

text \<open>
  The first four constructors are the built-in exceptions that the statements of the module
  can raise: a missing dictionary key, the interpreter's recursion limit, a division by zero,
  \<open>max\<close>/\<open>min\<close> of an empty sequence or a tuple of the wrong length.  The module defines
  no exception class and has no \<open>raise\<close> statement; the last four constructors are the error
  names used by the specification and are never produced by any function below.
\<close>

datatype error =
    KeyError string
  | RecursionError
  | ZeroDivisionError
  | ValueError
  | UnknownDependency
  | CycleDetected
  | InvalidParameter
  | DegenerateSchedule

subsection \<open>The random generator\<close>

type_synonym rng = "nat \<Rightarrow> real"

text \<open>\<open>random.random()\<close>: returns the next value and advances the generator.\<close>

definition random_random :: "rng \<Rightarrow> real \<times> rng" where
  "random_random r = (r 0, \<lambda>n. r (Suc n))"

text \<open>\<open>random.uniform(a, b)\<close> is \<open>a + (b - a) * random()\<close> in the standard library.\<close>

definition random_uniform :: "real \<Rightarrow> real \<Rightarrow> rng \<Rightarrow> real \<times> rng" where
  "random_uniform a b r = (let (u, r') = random_random r in (a + (b - a) * u, r'))"

text \<open>The generator's contract: every value of \<open>random.random()\<close> lies in \<open>[0, 1)\<close>.\<close>

definition unit_draws :: "rng \<Rightarrow> bool" where
  "unit_draws r = (\<forall>n. 0 \<le> r n \<and> r n < 1)"

text \<open>The generator after \<open>k\<close> calls of \<open>random.random()\<close>.\<close>

definition advance :: "nat \<Rightarrow> rng \<Rightarrow> rng" where
  "advance k r = (\<lambda>n. r (n + k))"

subsection \<open>class Task\<close>

record task =
  name :: string
  base_duration :: real
  value_added :: bool
  delay_factor :: real
  delay_probability :: real
  dependencies :: "string list"

text \<open>
  The constructor; the defaults \<open>delay_factor=0\<close>, \<open>delay_probability=1.0\<close> and
  \<open>dependencies=None\<close> (stored as \<open>[]\<close>) are written out at the call sites.
\<close>

definition Task :: "string \<Rightarrow> real \<Rightarrow> bool \<Rightarrow> real \<Rightarrow> real \<Rightarrow> string list \<Rightarrow> task" where
  "Task nm base va df dp deps =
     \<lparr>name = nm, base_duration = base, value_added = va, delay_factor = df,
      delay_probability = dp, dependencies = deps\<rparr>"

text \<open>\<open>Task.simulate_duration\<close>: the realized duration and the generator afterwards.\<close>

definition simulate_duration :: "task \<Rightarrow> rng \<Rightarrow> real \<times> rng" where
  "simulate_duration t r =
     (let (delay, r') =
        (if \<not> value_added t \<and> delay_factor t > 0 then
           (let (u, r1) = random_random r in
            if u < delay_probability t then random_uniform 0 (delay_factor t) r1
            else (0, r1))
         else (0, r))
      in (base_duration t + delay, r'))"

subsection \<open>simulate_project: the task list\<close>

abbreviation Planejamento :: string where "Planejamento \<equiv> ''Planejamento''"
abbreviation Licenciamento :: string where "Licenciamento \<equiv> ''Licenciamento''"
abbreviation Mobilizacao :: string where
  "Mobilizacao \<equiv> ''Mobiliza'' @ [CHR 0xC3, CHR 0xA7, CHR 0xC3, CHR 0xA3] @ ''o''"
abbreviation Escavacao :: string where
  "Escavacao \<equiv> ''Escava'' @ [CHR 0xC3, CHR 0xA7, CHR 0xC3, CHR 0xA3] @ ''o''"
abbreviation Estrutura :: string where "Estrutura \<equiv> ''Estrutura''"
abbreviation Alvenaria :: string where "Alvenaria \<equiv> ''Alvenaria''"
abbreviation Instalacoes :: string where
  "Instalacoes \<equiv> ''Instala'' @ [CHR 0xC3, CHR 0xA7, CHR 0xC3, CHR 0xB5] @ ''es''"
abbreviation Acabamentos :: string where "Acabamentos \<equiv> ''Acabamentos''"
abbreviation Inspecao :: string where
  "Inspecao \<equiv> ''Inspe'' @ [CHR 0xC3, CHR 0xA7, CHR 0xC3, CHR 0xA3] @ ''o''"

text \<open>
  The names with a cedilla or a tilde are written as their UTF-8 bytes.  The list is the
  literal of the source, \<open>lean_improvement\<close> being the only parameter.
\<close>

definition project_tasks :: "real \<Rightarrow> task list" where
  "project_tasks lean_improvement =
     [Task Planejamento 20 True 0 1 [],
      Task Licenciamento 10 False (5 * (1 - lean_improvement)) 0.8 [Planejamento],
      Task Mobilizacao 5 False (3 * (1 - lean_improvement)) 0.7 [Licenciamento],
      Task Escavacao 15 True 0 1 [Mobilizacao],
      Task Estrutura 25 True 0 1 [Escavacao],
      Task Alvenaria 20 True 0 1 [Estrutura],
      Task Instalacoes 10 True 0 1 [Estrutura],
      Task Acabamentos 10 True 0 1 [Alvenaria, Instalacoes],
      Task Inspecao 5 True 0 1 [Acabamentos]]"

subsection \<open>simulate_project: topological ordering\<close>

text \<open>\<open>tasks_by_name = {task.name: task for task in tasks}\<close>: a later task of the same
  name replaces an earlier one.\<close>

definition tasks_by_name :: "task list \<Rightarrow> (string \<rightharpoonup> task)" where
  "tasks_by_name tasks = fold (\<lambda>t m. m(name t \<mapsto> t)) tasks Map.empty"

text \<open>
  The nested function \<open>visit\<close> with its state \<open>(seen, order)\<close>.  The first argument is the
  number of frames the interpreter still allows: a call with none left raises
  \<open>RecursionError\<close>, which is how the recursion of the source ends on a dependency cycle.
  \<open>visit_deps\<close> is the \<open>for dep in task.dependencies\<close> loop inside one frame.
\<close>

type_synonym vstate = "string set \<times> task list"

fun visit :: "nat \<Rightarrow> (string \<rightharpoonup> task) \<Rightarrow> task \<Rightarrow> vstate \<Rightarrow> error + vstate"
  and visit_deps :: "nat \<Rightarrow> (string \<rightharpoonup> task) \<Rightarrow> string list \<Rightarrow> vstate \<Rightarrow> error + vstate"
where
  "visit 0 tbn t s = Inl RecursionError"
| "visit (Suc d) tbn t s =
     (case visit_deps d tbn (dependencies t) s of
        Inl e \<Rightarrow> Inl e
      | Inr (seen, order) \<Rightarrow>
          if name t \<notin> seen then Inr (insert (name t) seen, order @ [t])
          else Inr (seen, order))"
| "visit_deps d tbn [] s = Inr s"
| "visit_deps d tbn (dep # deps) s =
     (if dep \<notin> fst s then
        (case tbn dep of
           None \<Rightarrow> Inl (KeyError dep)
         | Some t' \<Rightarrow>
             (case visit d tbn t' s of
                Inl e \<Rightarrow> Inl e
              | Inr s' \<Rightarrow> visit_deps d tbn deps s'))
      else visit_deps d tbn deps s)"

text \<open>\<open>for task in tasks: visit(task)\<close>\<close>

fun visit_all :: "nat \<Rightarrow> (string \<rightharpoonup> task) \<Rightarrow> task list \<Rightarrow> vstate \<Rightarrow> error + vstate" where
  "visit_all d tbn [] s = Inr s"
| "visit_all d tbn (t # ts) s =
     (case visit d tbn t s of Inl e \<Rightarrow> Inl e | Inr s' \<Rightarrow> visit_all d tbn ts s')"

definition topo_order :: "nat \<Rightarrow> task list \<Rightarrow> error + task list" where
  "topo_order d tasks =
     (case visit_all d (tasks_by_name tasks) tasks ({}, []) of
        Inl e \<Rightarrow> Inl e
      | Inr (seen, order) \<Rightarrow> Inr order)"

subsection \<open>simulate_project: the forward pass\<close>

text \<open>A schedule entry is the tuple
  \<open>(start_time, finish_time, duration, value_added, base_duration)\<close>; the schedule is a
  dictionary, which keeps its keys in insertion order.\<close>

type_synonym entry = "real \<times> real \<times> real \<times> bool \<times> real"
type_synonym schedule = "(string \<times> entry) list"

definition entry_start :: "entry \<Rightarrow> real" where
  "entry_start e = fst e"

definition entry_finish :: "entry \<Rightarrow> real" where
  "entry_finish e = fst (snd e)"

definition entry_duration :: "entry \<Rightarrow> real" where
  "entry_duration e = fst (snd (snd e))"

definition entry_base :: "entry \<Rightarrow> real" where
  "entry_base e = snd (snd (snd (snd e)))"

text \<open>\<open>max\<close> and \<open>min\<close> of a sequence; both raise \<open>ValueError\<close> on an empty one.\<close>

definition py_max :: "real list \<Rightarrow> error + real" where
  "py_max xs = (case xs of [] \<Rightarrow> Inl ValueError | x # ys \<Rightarrow> Inr (fold max ys x))"

definition py_min :: "real list \<Rightarrow> error + real" where
  "py_min xs = (case xs of [] \<Rightarrow> Inl ValueError | x # ys \<Rightarrow> Inr (fold min ys x))"

text \<open>The generator \<open>schedule[dep][1] for dep in task.dependencies\<close>.\<close>

fun dep_finishes :: "schedule \<Rightarrow> string list \<Rightarrow> error + real list" where
  "dep_finishes sched [] = Inr []"
| "dep_finishes sched (dep # deps) =
     (case map_of sched dep of
        None \<Rightarrow> Inl (KeyError dep)
      | Some e \<Rightarrow>
          (case dep_finishes sched deps of
             Inl err \<Rightarrow> Inl err
           | Inr fs \<Rightarrow> Inr (entry_finish e # fs)))"

definition start_time :: "task \<Rightarrow> schedule \<Rightarrow> error + real" where
  "start_time t sched =
     (if dependencies t \<noteq> [] then
        (case dep_finishes sched (dependencies t) of
           Inl e \<Rightarrow> Inl e
         | Inr fs \<Rightarrow> py_max fs)
      else Inr 0)"

text \<open>\<open>for task in order: ...\<close>, with the schedule built so far and the generator.\<close>

fun compute_schedule :: "task list \<Rightarrow> schedule \<Rightarrow> rng \<Rightarrow> error + schedule \<times> rng" where
  "compute_schedule [] sched r = Inr (sched, r)"
| "compute_schedule (t # ts) sched r =
     (case start_time t sched of
        Inl e \<Rightarrow> Inl e
      | Inr st \<Rightarrow>
          (let (duration, r') = simulate_duration t r;
               finish_time = st + duration
           in compute_schedule ts
                (AList.update (name t)
                   (st, finish_time, duration, value_added t, base_duration t) sched) r'))"

subsection \<open>simulate_project: totals\<close>

definition total_duration_of :: "schedule \<Rightarrow> error + real" where
  "total_duration_of sched =
     (case map_of sched Inspecao of
        Some e \<Rightarrow> Inr (entry_finish e)
      | None \<Rightarrow> py_max (map (\<lambda>p. entry_finish (snd p)) sched))"

definition total_value_added_of :: "task list \<Rightarrow> real" where
  "total_value_added_of tasks = sum_list (map base_duration (filter value_added tasks))"

text \<open>
  The body of \<open>simulate_project\<close> after the task list: ordering, forward pass, totals and
  the efficiency, whose division raises \<open>ZeroDivisionError\<close> on a zero total duration.
\<close>

definition run_tasks ::
  "nat \<Rightarrow> task list \<Rightarrow> rng \<Rightarrow> error + (schedule \<times> real \<times> real \<times> real) \<times> rng" where
  "run_tasks d tasks r =
     (case topo_order d tasks of
        Inl e \<Rightarrow> Inl e
      | Inr order \<Rightarrow>
          (case compute_schedule order [] r of
             Inl e \<Rightarrow> Inl e
           | Inr (sched, r') \<Rightarrow>
               (case total_duration_of sched of
                  Inl e \<Rightarrow> Inl e
                | Inr total_duration \<Rightarrow>
                    (let total_value_added = total_value_added_of tasks in
                     if total_duration = 0 then Inl ZeroDivisionError
                     else Inr ((sched, total_duration, total_value_added,
                                100 * (total_value_added / total_duration)), r')))))"

text \<open>
  The default of \<open>sys.getrecursionlimit()\<close>, taken as the number of nested calls of
  \<open>visit\<close> the interpreter allows (the few frames already on the stack are neglected; the
  built-in project needs a depth of 1).
\<close>

definition recursion_limit :: nat where
  "recursion_limit = 1000"

text \<open>The two shapes of the value returned, chosen by \<open>return_schedule\<close>.\<close>

datatype sim_result =
    Detailed schedule real real real
  | Summary real real real

definition simulate_project :: "bool \<Rightarrow> real \<Rightarrow> rng \<Rightarrow> error + sim_result \<times> rng" where
  "simulate_project return_schedule lean_improvement r =
     (case run_tasks recursion_limit (project_tasks lean_improvement) r of
        Inl e \<Rightarrow> Inl e
      | Inr ((sched, total_duration, total_value_added, efficiency), r') \<Rightarrow>
          if return_schedule
          then Inr (Detailed sched total_duration total_value_added efficiency, r')
          else Inr (Summary total_duration total_value_added efficiency, r'))"

subsection \<open>Floating-point rounding\<close>

text \<open>
  The result of a float operation is the exact result rounded to the nearest binary64 number
  (53 significant bits), a tie going to the even significand.  \<open>float_exponent x\<close> is the
  exponent \<open>e\<close> with \<open>2^e \<le> |x| < 2^(e+1)\<close>, and \<open>fl x\<close> rounds \<open>x\<close> to a multiple of
  \<open>2^(e-52)\<close>.  Overflow and the subnormal range are left out.
\<close>

definition round_half_even :: "real \<Rightarrow> int" where
  "round_half_even y =
     (let f = \<lfloor>y\<rfloor> in
      if y - of_int f < 1 / 2 then f
      else if 1 / 2 < y - of_int f then f + 1
      else if even f then f else f + 1)"

definition float_exponent :: "real \<Rightarrow> int" where
  "float_exponent x = \<lfloor>log 2 \<bar>x\<bar>\<rfloor>"

definition fl :: "real \<Rightarrow> real" where
  "fl x =
     (if x = 0 then 0
      else (let u = 2 powr of_int (float_exponent x - 52)
            in of_int (round_half_even (x / u)) * u))"

subsection \<open>run_monte_carlo_simulation\<close>

text \<open>The values the function prints, in the order of its \<open>print\<close> statements.\<close>

record mc_stats =
  num_simulations :: int
  avg_duration :: real
  avg_value_added :: real
  efficiency :: real
  min_duration :: real
  max_duration :: real

text \<open>
  The loop \<open>for _ in range(num_simulations)\<close> with its accumulators
  \<open>(total_duration, total_value_added, durations)\<close>.  Unpacking the result into three
  names raises \<open>ValueError\<close> on a tuple of four.  \<open>total_duration += dur\<close> is a float
  addition; \<open>total_value_added += val\<close> adds integers and is exact.
\<close>

fun mc_loop ::
  "nat \<Rightarrow> real \<Rightarrow> real \<times> real \<times> real list \<Rightarrow> rng \<Rightarrow> error + (real \<times> real \<times> real list) \<times> rng"
where
  "mc_loop 0 li acc r = Inr (acc, r)"
| "mc_loop (Suc k) li (total_duration, total_value_added, durations) r =
     (case simulate_project False li r of
        Inl e \<Rightarrow> Inl e
      | Inr (Detailed sched dur val eff, r') \<Rightarrow> Inl ValueError
      | Inr (Summary dur val eff, r') \<Rightarrow>
          mc_loop k li
            (fl (total_duration + dur), total_value_added + val, durations @ [dur]) r')"

text \<open>
  The rest of the function.  The two averages divide by \<open>num_simulations\<close> (an error when
  it is 0), the efficiency divides by the average duration (an error when that is 0); each
  quotient and the product with 100 are rounded.
\<close>

definition run_monte_carlo_simulation :: "int \<Rightarrow> real \<Rightarrow> rng \<Rightarrow> error + mc_stats \<times> rng" where
  "run_monte_carlo_simulation n lean_improvement r =
     (case mc_loop (nat n) lean_improvement (0, 0, []) r of
        Inl e \<Rightarrow> Inl e
      | Inr ((total_duration, total_value_added, durations), r') \<Rightarrow>
          if n = 0 then Inl ZeroDivisionError
          else
            (let avg_d = fl (total_duration / of_int n);
                 avg_v = fl (total_value_added / of_int n)
             in if avg_d = 0 then Inl ZeroDivisionError
                else
                  (case py_min durations of
                     Inl e \<Rightarrow> Inl e
                   | Inr mn \<Rightarrow>
                       (case py_max durations of
                          Inl e \<Rightarrow> Inl e
                        | Inr mx \<Rightarrow>
                            Inr (\<lparr>num_simulations = n, avg_duration = avg_d,
                                  avg_value_added = avg_v,
                                  efficiency = fl (100 * fl (avg_v / avg_d)),
                                  min_duration = mn, max_duration = mx\<rparr>, r')))))"

section \<open>Notions used to state the properties\<close>

text \<open>
  The schedule of the built-in project when \<open>Licenciamento\<close> takes \<open>d1\<close> days and
  \<open>Mobilizacao\<close> takes \<open>d2\<close> days (lemma \<open>compute_schedule_project\<close> below
  shows that the forward pass computes it).
\<close>

definition project_schedule :: "real \<Rightarrow> real \<Rightarrow> schedule" where
  "project_schedule d1 d2 =
     [(Planejamento, (0, 20, 20, True, 20)),
      (Licenciamento, (20, 20 + d1, d1, False, 10)),
      (Mobilizacao, (20 + d1, 20 + d1 + d2, d2, False, 5)),
      (Escavacao, (20 + d1 + d2, 35 + d1 + d2, 15, True, 15)),
      (Estrutura, (35 + d1 + d2, 60 + d1 + d2, 25, True, 25)),
      (Alvenaria, (60 + d1 + d2, 80 + d1 + d2, 20, True, 20)),
      (Instalacoes, (60 + d1 + d2, 70 + d1 + d2, 10, True, 10)),
      (Acabamentos, (80 + d1 + d2, 90 + d1 + d2, 10, True, 10)),
      (Inspecao, (90 + d1 + d2, 95 + d1 + d2, 5, True, 5))]"

text \<open>
  A dependency chain of a task list: every task of the chain is in the list and is named
  among the dependencies of the next one.  Its duration is the sum of the base durations.
\<close>

fun dep_chain :: "task list \<Rightarrow> task list \<Rightarrow> bool" where
  "dep_chain tasks [] = False"
| "dep_chain tasks [t] = (t \<in> set tasks)"
| "dep_chain tasks (a # b # c) =
     (a \<in> set tasks \<and> name a \<in> set (dependencies b) \<and> dep_chain tasks (b # c))"

definition chain_duration :: "task list \<Rightarrow> real" where
  "chain_duration c = sum_list (map base_duration c)"

text \<open>Two concrete generators.\<close>

definition half_draws :: rng where
  "half_draws n = 1 / 2"

definition example_draws :: rng where
  "example_draws n = (if n < 2 then 0 else 1 / 2)"

text \<open>The chain of the built-in project through \<open>Alvenaria\<close>, with \<open>lean_improvement = 1\<close>.\<close>

definition critical_chain :: "task list" where
  "critical_chain =
     [Task Planejamento 20 True 0 1 [],
      Task Licenciamento 10 False (5 * (1 - 1)) 0.8 [Planejamento],
      Task Mobilizacao 5 False (3 * (1 - 1)) 0.7 [Licenciamento],
      Task Escavacao 15 True 0 1 [Mobilizacao],
      Task Estrutura 25 True 0 1 [Escavacao],
      Task Alvenaria 20 True 0 1 [Estrutura],
      Task Acabamentos 10 True 0 1 [Alvenaria, Instalacoes],
      Task Inspecao 5 True 0 1 [Acabamentos]]"

text \<open>The longest duration of a chain of the built-in project that starts at the task of
  a given name (the bound is proved below, it is not assumed).\<close>

definition remaining :: "string \<Rightarrow> real" where
  "remaining n =
     (if n = Planejamento then 110 else if n = Licenciamento then 90
      else if n = Mobilizacao then 80 else if n = Escavacao then 75
      else if n = Estrutura then 60 else if n = Alvenaria then 35
      else if n = Instalacoes then 25 else if n = Acabamentos then 15
      else 5)"

definition example_draws2 :: rng where
  "example_draws2 n = (if n < 2 then 0 else if n < 4 then 1 / 2 else 1 / 3)"

text \<open>
  A list of tasks is sorted from a set \<open>S\<close> of names when every task lists only
  dependencies that are in \<open>S\<close> or are names of earlier tasks of the list.
\<close>

fun sorted_from :: "string set \<Rightarrow> task list \<Rightarrow> bool" where
  "sorted_from S [] = True"
| "sorted_from S (t # ts) = (set (dependencies t) \<subseteq> S \<and> sorted_from (insert (name t) S) ts)"

text \<open>The invariant of the state \<open>(seen, order)\<close> of the traversal.\<close>

definition visit_inv :: "task list \<Rightarrow> vstate \<Rightarrow> bool" where
  "visit_inv tasks s =
     (fst s = name ` set (snd s) \<and> distinct (map name (snd s)) \<and>
      sorted_from {} (snd s) \<and> set (snd s) \<subseteq> set tasks)"

text \<open>
  The dependency relation of a task list has a cycle when some dependency chain of two or
  more tasks ends at the name it starts from; it is well referenced when every dependency
  is the name of a task of the list.
\<close>

definition cyclic :: "task list \<Rightarrow> bool" where
  "cyclic tasks = (\<exists>c. dep_chain tasks c \<and> 2 \<le> length c \<and> name (hd c) = name (last c))"

definition well_referenced :: "task list \<Rightarrow> bool" where
  "well_referenced tasks =
     (\<forall>t \<in> set tasks. \<forall>k \<in> set (dependencies t). k \<in> name ` set tasks)"

text \<open>
  The two ways the traversal with \<open>d\<close> frames can fail: \<open>RecursionError\<close>, and then some
  dependency chain has more than \<open>d\<close> tasks, or \<open>KeyError\<close> on a dependency that no task
  is named after.
\<close>

definition visit_failure :: "task list \<Rightarrow> nat \<Rightarrow> error \<Rightarrow> bool" where
  "visit_failure tasks d e =
     ((e = RecursionError \<and> (\<exists>c. dep_chain tasks c \<and> d < length c)) \<or>
      (\<exists>k. e = KeyError k \<and> k \<notin> name ` set tasks \<and>
           (\<exists>u \<in> set tasks. k \<in> set (dependencies u))))"

text \<open>The position of the first task of a given name in a list.\<close>

fun pos :: "task list \<Rightarrow> string \<Rightarrow> nat" where
  "pos [] n = 0"
| "pos (t # ts) n = (if name t = n then 0 else Suc (pos ts n))"

text \<open>The sinks of a task list: the tasks that no task of the list depends on.\<close>

definition sinks :: "task list \<Rightarrow> task list" where
  "sinks tasks = filter (\<lambda>t. \<forall>u \<in> set tasks. name t \<notin> set (dependencies u)) tasks"

text \<open>A generator that repeats the three values \<open>7/8\<close>, \<open>1/2\<close> and \<open>2^-45\<close>.\<close>

definition period_draws :: rng where
  "period_draws n = (if n mod 3 = 0 then 7 / 8 else if n mod 3 = 1 then 1 / 2 else 1 / 2 ^ 45)"

section \<open>Properties\<close>

subsection \<open>The generator and Task.simulate_duration\<close>

lemma unit_draws_advance: "unit_draws r \<Longrightarrow> unit_draws (advance k r)"
  by (simp add: unit_draws_def advance_def)

lemma unit_half_draws: "unit_draws half_draws"
  by (simp add: unit_draws_def half_draws_def)

lemma advance_half_draws: "advance k half_draws = half_draws"
  by (simp add: advance_def half_draws_def fun_eq_iff)

lemma simulate_duration_eq:
  "simulate_duration t r =
     (if value_added t \<or> delay_factor t \<le> 0 then (base_duration t, r)
      else if r 0 < delay_probability t
        then (base_duration t + delay_factor t * r 1, advance 2 r)
        else (base_duration t, advance 1 r))"
  by (auto simp add: simulate_duration_def random_random_def random_uniform_def advance_def)

lemma simulate_duration_value_added:
  "value_added t \<Longrightarrow> simulate_duration t r = (base_duration t, r)"
  by (simp add: simulate_duration_eq)

lemma simulate_duration_ge_base:
  "unit_draws r \<Longrightarrow> base_duration t \<le> fst (simulate_duration t r)"
  by (simp add: simulate_duration_eq unit_draws_def)

lemma simulate_duration_unit:
  "unit_draws r \<Longrightarrow> unit_draws (snd (simulate_duration t r))"
  by (simp add: simulate_duration_eq unit_draws_advance)

subsection \<open>The built-in project, step by step\<close>

lemma topo_order_project: "topo_order (Suc d) (project_tasks li) = Inr (project_tasks li)"
  by (simp add: topo_order_def tasks_by_name_def project_tasks_def Task_def)

lemma compute_schedule_project:
  "compute_schedule (project_tasks li) [] r =
     (let (d1, r1) =
            simulate_duration (Task Licenciamento 10 False (5 * (1 - li)) 0.8 [Planejamento]) r;
          (d2, r2) =
            simulate_duration (Task Mobilizacao 5 False (3 * (1 - li)) 0.7 [Licenciamento]) r1
      in Inr (project_schedule d1 d2, r2))"
  by (simp add: project_tasks_def Task_def start_time_def py_max_def entry_finish_def
       simulate_duration_value_added project_schedule_def Let_def split: prod.splits)

lemma total_duration_project:
  "total_duration_of (project_schedule d1 d2) = Inr (95 + d1 + d2)"
  by (simp add: total_duration_of_def project_schedule_def entry_finish_def)

lemma total_value_added_project: "total_value_added_of (project_tasks li) = 105"
  by (simp add: total_value_added_of_def project_tasks_def Task_def)

lemma run_tasks_project:
  "run_tasks (Suc d) (project_tasks li) r =
     (let (d1, r1) =
            simulate_duration (Task Licenciamento 10 False (5 * (1 - li)) 0.8 [Planejamento]) r;
          (d2, r2) =
            simulate_duration (Task Mobilizacao 5 False (3 * (1 - li)) 0.7 [Licenciamento]) r1
      in if 95 + d1 + d2 = 0 then Inl ZeroDivisionError
         else Inr ((project_schedule d1 d2, 95 + d1 + d2, 105,
                    100 * (105 / (95 + d1 + d2))), r2))"
  by (simp add: run_tasks_def topo_order_project compute_schedule_project
        total_duration_project total_value_added_project Let_def split: prod.splits)

lemma recursion_limit_Suc: "recursion_limit = Suc 999"
  by (simp add: recursion_limit_def)

lemma simulate_project_eq:
  "simulate_project rs li r =
     (let (d1, r1) =
            simulate_duration (Task Licenciamento 10 False (5 * (1 - li)) 0.8 [Planejamento]) r;
          (d2, r2) =
            simulate_duration (Task Mobilizacao 5 False (3 * (1 - li)) 0.7 [Licenciamento]) r1
      in if 95 + d1 + d2 = 0 then Inl ZeroDivisionError
         else if rs
           then Inr (Detailed (project_schedule d1 d2) (95 + d1 + d2) 105
                       (100 * (105 / (95 + d1 + d2))), r2)
           else Inr (Summary (95 + d1 + d2) 105 (100 * (105 / (95 + d1 + d2))), r2))"
  unfolding simulate_project_def recursion_limit_Suc run_tasks_project
  by (simp add: Let_def split: prod.splits)

text \<open>
  With draws in \<open>[0, 1)\<close> both tasks that can be delayed take at least their base
  duration, the total duration is not zero and the call returns.
\<close>

lemma simulate_project_unit:
  assumes "unit_draws r"
  shows "\<exists>d1 d2 r'. 10 \<le> d1 \<and> 5 \<le> d2 \<and> unit_draws r' \<and>
           simulate_project True li r =
             Inr (Detailed (project_schedule d1 d2) (95 + d1 + d2) 105
                    (100 * (105 / (95 + d1 + d2))), r') \<and>
           simulate_project False li r =
             Inr (Summary (95 + d1 + d2) 105 (100 * (105 / (95 + d1 + d2))), r')"
proof -
  let ?l = "Task Licenciamento 10 False (5 * (1 - li)) 0.8 [Planejamento]"
  let ?m = "Task Mobilizacao 5 False (3 * (1 - li)) 0.7 [Licenciamento]"
  obtain d1 r1 where s1: "simulate_duration ?l r = (d1, r1)"
    by (cases "simulate_duration ?l r")
  obtain d2 r2 where s2: "simulate_duration ?m r1 = (d2, r2)"
    by (cases "simulate_duration ?m r1")
  have d1: "10 \<le> d1" and u1: "unit_draws r1"
    using simulate_duration_ge_base [OF assms, of ?l] simulate_duration_unit [OF assms, of ?l] s1
    by (simp_all add: Task_def)
  have d2: "5 \<le> d2" and u2: "unit_draws r2"
    using simulate_duration_ge_base [OF u1, of ?m] simulate_duration_unit [OF u1, of ?m] s2
    by (simp_all add: Task_def)
  from d1 d2 have nz: "95 + d1 + d2 \<noteq> 0" by simp
  have "simulate_project rs li r =
          (if rs then Inr (Detailed (project_schedule d1 d2) (95 + d1 + d2) 105
                            (100 * (105 / (95 + d1 + d2))), r2)
           else Inr (Summary (95 + d1 + d2) 105 (100 * (105 / (95 + d1 + d2))), r2))" for rs
    unfolding simulate_project_eq s1 s2 Let_def prod.case using nz by simp
  from this [of True] this [of False] d1 d2 u2 show ?thesis
    by auto
qed

subsection \<open>The total of value-adding work\<close>

text \<open>
  Claim C3.  Every run of \<open>simulate_project\<close>, whatever \<open>lean_improvement\<close> and whatever
  the generator returns, reports as \<open>total_value_added\<close> the sum of the base durations of
  the value-adding tasks, which for the built-in project is 20+15+25+20+10+10+5 = 105; the
  value does not depend on the draws.
\<close>

theorem total_value_added_fixed:
  assumes "unit_draws r"
  shows "\<exists>sched td eff r'.
           simulate_project True li r =
             Inr (Detailed sched td (total_value_added_of (project_tasks li)) eff, r') \<and>
           simulate_project False li r =
             Inr (Summary td (total_value_added_of (project_tasks li)) eff, r') \<and>
           total_value_added_of (project_tasks li) = 20 + 15 + 25 + 20 + 10 + 10 + 5 \<and>
           total_value_added_of (project_tasks li) = 105"
  using simulate_project_unit [OF assms, of li]
  by (auto simp add: total_value_added_project)

theorem total_value_added_fixed_witness:
  "unit_draws half_draws \<and>
   (\<exists>sched td eff r'.
      simulate_project True 0 half_draws = Inr (Detailed sched td 105 eff, r') \<and>
      simulate_project False 0 half_draws = Inr (Summary td 105 eff, r'))"
  using total_value_added_fixed [OF unit_half_draws, of 0] unit_half_draws
  by auto

subsection \<open>The sampled duration\<close>

text \<open>
  Claim C2.  \<open>Task.simulate_duration\<close> returns exactly \<open>base_duration\<close>, leaving the
  generator untouched, when the task adds value or its \<open>delay_factor\<close> is not positive.
  Otherwise it draws one value of \<open>random.random()\<close>; when that value is below
  \<open>delay_probability\<close> it draws a second one through \<open>random.uniform(0, delay_factor)\<close>
  and adds it to \<open>base_duration\<close>, else the delay is 0.  For draws in \<open>[0, 1)\<close> the
  added delay lies in \<open>[0, delay_factor)\<close>.
\<close>

theorem simulate_duration_spec:
  "(value_added t \<or> delay_factor t \<le> 0 \<longrightarrow> simulate_duration t r = (base_duration t, r)) \<and>
   (\<not> value_added t \<and> 0 < delay_factor t \<and> r 0 < delay_probability t \<longrightarrow>
      simulate_duration t r = (base_duration t + delay_factor t * r 1, advance 2 r)) \<and>
   (\<not> value_added t \<and> 0 < delay_factor t \<and> \<not> r 0 < delay_probability t \<longrightarrow>
      simulate_duration t r = (base_duration t + 0, advance 1 r)) \<and>
   (random_random r = (r 0, advance 1 r)) \<and>
   (random_uniform 0 (delay_factor t) (advance 1 r) = (delay_factor t * r 1, advance 2 r)) \<and>
   (unit_draws r \<and> 0 < delay_factor t \<longrightarrow>
      0 \<le> r 0 \<and> r 0 < 1 \<and> 0 \<le> delay_factor t * r 1 \<and> delay_factor t * r 1 < delay_factor t)"
  by (auto simp add: simulate_duration_eq unit_draws_def random_random_def random_uniform_def
        advance_def)

theorem simulate_duration_spec_witness:
  "simulate_duration (Task Planejamento 20 True 0 1 []) example_draws = (20, example_draws) \<and>
   simulate_duration (Task Licenciamento 10 False 5 0.8 [Planejamento]) half_draws
     = (10 + 5 * (1 / 2), half_draws) \<and>
   simulate_duration (Task Licenciamento 10 False 5 0.3 [Planejamento]) half_draws
     = (10, half_draws) \<and>
   0 \<le> (5::real) * (1 / 2) \<and> (5::real) * (1 / 2) < 5"
  using simulate_duration_spec [of "Task Planejamento 20 True 0 1 []" example_draws]
    simulate_duration_spec [of "Task Licenciamento 10 False 5 0.8 [Planejamento]" half_draws]
    simulate_duration_spec [of "Task Licenciamento 10 False 5 0.3 [Planejamento]" half_draws]
  by (simp add: Task_def advance_half_draws half_draws_def)

subsection \<open>Durations are at least the base durations\<close>

text \<open>
  Claim C10.  When the generator returns values in \<open>[0, 1)\<close>, every task's realized
  duration is at least its \<open>base_duration\<close>; \<open>simulate_project\<close> then returns, with a
  total duration of at least 110, hence positive, so the division that computes the
  efficiency is never a division by zero.  No bound on \<open>lean_improvement\<close> is needed: a
  delay factor that is not positive is never used.
\<close>

theorem durations_at_least_base:
  assumes "unit_draws r"
  shows "(\<forall>t. base_duration t \<le> fst (simulate_duration t r)) \<and>
         (\<exists>sched td tva eff r'.
            simulate_project True li r = Inr (Detailed sched td tva eff, r') \<and>
            simulate_project False li r = Inr (Summary td tva eff, r') \<and>
            (\<forall>p \<in> set sched. entry_base (snd p) \<le> entry_duration (snd p)) \<and>
            110 \<le> td \<and> 0 < td \<and> eff = 100 * (tva / td))"
proof -
  from simulate_project_unit [OF assms, of li] obtain d1 d2 r' where
    d: "10 \<le> d1" "5 \<le> d2" and
    t: "simulate_project True li r =
             Inr (Detailed (project_schedule d1 d2) (95 + d1 + d2) 105
                    (100 * (105 / (95 + d1 + d2))), r')" and
    f: "simulate_project False li r =
             Inr (Summary (95 + d1 + d2) 105 (100 * (105 / (95 + d1 + d2))), r')"
    by blast
  have "\<forall>p \<in> set (project_schedule d1 d2). entry_base (snd p) \<le> entry_duration (snd p)"
    using d by (simp add: project_schedule_def entry_base_def entry_duration_def)
  with d t f show ?thesis
    using simulate_duration_ge_base [OF assms] by simp
qed

theorem durations_at_least_base_witness:
  "unit_draws half_draws \<and>
   base_duration (Task Licenciamento 10 False 5 0.8 [Planejamento])
     \<le> fst (simulate_duration (Task Licenciamento 10 False 5 0.8 [Planejamento]) half_draws) \<and>
   (\<exists>sched td tva eff r'.
      simulate_project True 0 half_draws = Inr (Detailed sched td tva eff, r') \<and>
      110 \<le> td \<and> 0 < td \<and> eff = 100 * (tva / td))"
  using durations_at_least_base [OF unit_half_draws, of 0] unit_half_draws
  by blast

subsection \<open>Dependency chains of the built-in project\<close>

lemma dep_chain_hd: "dep_chain ts (b # c) \<Longrightarrow> b \<in> set ts"
  by (cases c) simp_all

lemma remaining_single:
  "t \<in> set (project_tasks li) \<Longrightarrow> base_duration t \<le> remaining (name t)"
  by (auto simp add: project_tasks_def Task_def remaining_def)


lemma remaining_step:
  "a \<in> set (project_tasks li) \<Longrightarrow> b \<in> set (project_tasks li) \<Longrightarrow>
   name a \<in> set (dependencies b) \<Longrightarrow>
   base_duration a + remaining (name b) \<le> remaining (name a)"
  apply (simp only: project_tasks_def Task_def set_simps insert_iff empty_iff)
  apply (elim disjE FalseE)
  apply (simp_all add: remaining_def)
  done

lemma chain_duration_remaining:
  "dep_chain (project_tasks li) c \<Longrightarrow> chain_duration c \<le> remaining (name (hd c))"
proof (induction "project_tasks li" c rule: dep_chain.induct)
  case 1
  then show ?case by simp
next
  case (2 t)
  then show ?case by (simp add: chain_duration_def remaining_single)
next
  case (3 a b c)
  then have "chain_duration (b # c) \<le> remaining (name b)" by simp
  moreover have "base_duration a + remaining (name b) \<le> remaining (name a)"
    using 3 remaining_step [of a li b] dep_chain_hd [of "project_tasks li" b c] by simp
  ultimately show ?case by (simp add: chain_duration_def)
qed

lemma remaining_le: "remaining n \<le> 110"
  by (simp add: remaining_def)

lemma critical_chain_ok:
  "dep_chain (project_tasks 1) critical_chain \<and> chain_duration critical_chain = 110"
  by (simp add: critical_chain_def project_tasks_def Task_def chain_duration_def)

lemma simulate_project_one:
  "simulate_project rs 1 r =
     (if rs then Inr (Detailed (project_schedule 10 5) 110 105 (100 * (105 / 110)), r)
      else Inr (Summary 110 105 (100 * (105 / 110)), r))"
  by (simp add: simulate_project_eq simulate_duration_eq Task_def)

lemma chain_duration_project_le: "dep_chain (project_tasks li) c \<Longrightarrow> chain_duration c \<le> 110"
  using chain_duration_remaining [of li c] remaining_le [of "name (hd c)"] by simp

subsection \<open>No delay when lean_improvement is 1\<close>

text \<open>
  Claim C4.  With \<open>lean_improvement = 1\<close> both delay factors are 0, so no task is delayed
  and no random value is drawn: whatever the generator, \<open>simulate_project\<close> returns the
  total duration 110, every entry's realized duration being its base duration.  110 is the
  critical-path sum of the built-in project: some dependency chain has base durations that
  add up to 110 and no dependency chain exceeds it.
\<close>

theorem lean_improvement_one:
  "\<exists>sched eff.
     simulate_project True 1 r = Inr (Detailed sched 110 105 eff, r) \<and>
     simulate_project False 1 r = Inr (Summary 110 105 eff, r) \<and>
     (\<forall>p \<in> set sched. entry_duration (snd p) = entry_base (snd p)) \<and>
     (\<exists>c. dep_chain (project_tasks 1) c \<and> chain_duration c = 110) \<and>
     (\<forall>c. dep_chain (project_tasks 1) c \<longrightarrow> chain_duration c \<le> 110)"
proof -
  have "\<forall>p \<in> set (project_schedule 10 5). entry_duration (snd p) = entry_base (snd p)"
    by (simp add: project_schedule_def entry_duration_def entry_base_def)
  moreover have "\<exists>c. dep_chain (project_tasks 1) c \<and> chain_duration c = 110"
    using critical_chain_ok by blast
  moreover have "\<forall>c. dep_chain (project_tasks 1) c \<longrightarrow> chain_duration c \<le> 110"
    using chain_duration_project_le [of 1] by blast
  ultimately show ?thesis
    unfolding simulate_project_one
    by (intro exI [of _ "project_schedule 10 5"] exI [of _ "100 * (105 / 110)"]) simp
qed

theorem lean_improvement_one_witness:
  "(\<exists>sched eff. simulate_project True 1 example_draws = Inr (Detailed sched 110 105 eff, example_draws)) \<and>
   dep_chain (project_tasks 1) critical_chain \<and> chain_duration critical_chain \<le> 110"
proof -
  have "dep_chain (project_tasks 1) critical_chain"
    by (simp add: critical_chain_ok)
  with lean_improvement_one [of example_draws] show ?thesis
    by blast
qed

subsection \<open>Reproducibility\<close>

text \<open>
  \<open>simulate_project\<close> has no seed parameter and never seeds the generator: it reads the
  process-wide generator where the previous call left it.  A call draws at most four
  values, two for each task that can be delayed.
\<close>

lemma simulate_duration_cong:
  assumes "r 0 = r' 0" "r 1 = r' 1"
  shows "\<exists>k \<le> 2. fst (simulate_duration t r) = fst (simulate_duration t r') \<and>
           snd (simulate_duration t r) = advance k r \<and>
           snd (simulate_duration t r') = advance k r'"
proof (cases "value_added t \<or> delay_factor t \<le> 0")
  case True
  then have "simulate_duration t r = (base_duration t, advance 0 r)"
    "simulate_duration t r' = (base_duration t, advance 0 r')"
    by (simp_all add: simulate_duration_eq advance_def)
  then show ?thesis by (intro exI [of _ 0]) simp
next
  case False
  show ?thesis
  proof (cases "r 0 < delay_probability t")
    case True
    with False assms have "simulate_duration t r = (base_duration t + delay_factor t * r 1, advance 2 r)"
      "simulate_duration t r' = (base_duration t + delay_factor t * r 1, advance 2 r')"
      by (simp_all add: simulate_duration_eq)
    then show ?thesis by (intro exI [of _ 2]) simp
  next
    case nd: False
    with False assms have "simulate_duration t r = (base_duration t, advance 1 r)"
      "simulate_duration t r' = (base_duration t, advance 1 r')"
      by (simp_all add: simulate_duration_eq)
    then show ?thesis by (intro exI [of _ 1]) simp
  qed
qed

lemma advance_example_draws: "advance 2 (advance 2 example_draws) = half_draws"
  by (simp add: advance_def example_draws_def half_draws_def fun_eq_iff)

text \<open>
  Claim C6.  A seed reaches \<open>simulate_project\<close> only through the state it gives the
  generator.  Two separate calls with the same \<open>lean_improvement\<close> that start from generator
  states agreeing on the next four values, as two states set from the same seed do, return
  the same schedule, total duration, total of value-adding work and efficiency (and raise
  the same error if they fail).
\<close>

theorem same_draws_same_result:
  assumes "r 0 = r' 0" "r 1 = r' 1" "r 2 = r' 2" "r 3 = r' 3"
  shows "map_sum id fst (simulate_project rs li r) = map_sum id fst (simulate_project rs li r')"
proof -
  let ?l = "Task Licenciamento 10 False (5 * (1 - li)) 0.8 [Planejamento]"
  let ?m = "Task Mobilizacao 5 False (3 * (1 - li)) 0.7 [Licenciamento]"
  from assms have r01: "r 0 = r' 0" "r 1 = r' 1" by simp_all
  from assms have r4: "\<forall>n<4. r n = r' n"
    by (auto simp add: less_Suc_eq numeral_eq_Suc)
  from simulate_duration_cong [OF r01, of ?l] obtain k where
    k: "k \<le> 2" "fst (simulate_duration ?l r) = fst (simulate_duration ?l r')"
       "snd (simulate_duration ?l r) = advance k r" "snd (simulate_duration ?l r') = advance k r'"
    by blast
  from r4 k(1) have "advance k r 0 = advance k r' 0" "advance k r 1 = advance k r' 1"
    by (simp_all add: advance_def)
  from simulate_duration_cong [OF this, of ?m]
  have m: "fst (simulate_duration ?m (advance k r)) = fst (simulate_duration ?m (advance k r'))"
    by blast
  obtain d1 r1 where s1: "simulate_duration ?l r = (d1, r1)" by (cases "simulate_duration ?l r")
  obtain d1' r1' where s1': "simulate_duration ?l r' = (d1', r1')" by (cases "simulate_duration ?l r'")
  obtain d2 r2 where s2: "simulate_duration ?m r1 = (d2, r2)" by (cases "simulate_duration ?m r1")
  obtain d2' r2' where s2': "simulate_duration ?m r1' = (d2', r2')" by (cases "simulate_duration ?m r1'")
  from k s1 s1' have e1: "d1' = d1" "r1 = advance k r" "r1' = advance k r'" by simp_all
  from m s2 s2' e1 have e2: "d2' = d2" by simp
  show ?thesis
    unfolding simulate_project_eq s1 s1' s2 s2' Let_def prod.case e1(1) e2
    by simp
qed

theorem same_draws_same_result_witness:
  "example_draws 4 \<noteq> example_draws2 4 \<and>
   map_sum id fst (simulate_project True 0 example_draws) =
   map_sum id fst (simulate_project True 0 example_draws2)"
proof -
  have "example_draws 0 = example_draws2 0" "example_draws 1 = example_draws2 1"
    "example_draws 2 = example_draws2 2" "example_draws 3 = example_draws2 3"
    by (simp_all add: example_draws_def example_draws2_def)
  from same_draws_same_result [OF this, of True 0]
  have "map_sum id fst (simulate_project True 0 example_draws) =
        map_sum id fst (simulate_project True 0 example_draws2)" .
  moreover have "example_draws 4 \<noteq> example_draws2 4"
    by (simp add: example_draws_def example_draws2_def)
  ultimately show ?thesis by blast
qed

subsection \<open>The Monte Carlo runner\<close>

lemma py_min_eq:
  assumes "xs \<noteq> []"
  shows "py_min xs = Inr (Min (set xs))"
proof (cases xs)
  case Nil
  with assms show ?thesis by simp
next
  case (Cons a list)
  then show ?thesis
    using Min.set_eq_fold [of a list] by (simp add: py_min_def)
qed

lemma py_max_eq:
  assumes "xs \<noteq> []"
  shows "py_max xs = Inr (Max (set xs))"
proof (cases xs)
  case Nil
  with assms show ?thesis by simp
next
  case (Cons a list)
  then show ?thesis
    using Max.set_eq_fold [of a list] by (simp add: py_max_def)
qed

lemma sum_list_lower: "\<forall>x \<in> set xs. m \<le> x \<Longrightarrow> m * real (length xs) \<le> sum_list xs"
  by (induction xs) (auto simp add: algebra_simps)

lemma sum_list_upper: "\<forall>x \<in> set xs. x \<le> m \<Longrightarrow> sum_list xs \<le> m * real (length xs)"
  by (induction xs) (auto simp add: algebra_simps)

lemma mean_between:
  assumes "xs \<noteq> []"
  shows "Min (set xs) \<le> sum_list xs / real (length xs)"
    and "sum_list xs / real (length xs) \<le> Max (set xs)"
proof -
  from assms have pos: "0 < real (length xs)" by simp
  have "Min (set xs) * real (length xs) \<le> sum_list xs"
    by (rule sum_list_lower) simp
  then show "Min (set xs) \<le> sum_list xs / real (length xs)"
    using pos by (simp add: pos_le_divide_eq)
  have "sum_list xs \<le> Max (set xs) * real (length xs)"
    by (rule sum_list_upper) simp
  then show "sum_list xs / real (length xs) \<le> Max (set xs)"
    using pos by (simp add: pos_divide_le_eq)
qed

text \<open>
  Rounding: how \<open>fl\<close> is computed once the exponent is known, and that it keeps positive
  numbers positive.
\<close>

lemma float_exponent_eq:
  assumes "2 ^ n \<le> \<bar>x\<bar>" "\<bar>x\<bar> < 2 ^ Suc n"
  shows "float_exponent x = int n"
proof -
  from assms(1) have pos: "0 < \<bar>x\<bar>" by (smt (verit) zero_less_power)
  have "real n \<le> log 2 \<bar>x\<bar>"
    using assms(1) pos by (simp add: le_log_iff powr_realpow)
  moreover have "log 2 \<bar>x\<bar> < real n + 1"
    using assms(2) pos by (simp add: log_less_iff powr_realpow powr_add)
  ultimately show ?thesis
    unfolding float_exponent_def by (simp add: floor_eq_iff)
qed

lemma fl_eval:
  assumes "2 ^ n \<le> \<bar>x\<bar>" "\<bar>x\<bar> < 2 ^ Suc n"
  shows "fl x = of_int (round_half_even (x / 2 powr (of_int (int n - 52)))) *
                2 powr (of_int (int n - 52))"
proof -
  from assms(1) have "x \<noteq> 0" by (smt (verit) zero_less_power abs_zero)
  then show ?thesis
    by (simp add: fl_def float_exponent_eq [OF assms] Let_def)
qed

lemma fl_pos:
  assumes "0 < x"
  shows "0 < fl x"
proof -
  define e where "e = float_exponent x"
  define u where "u = (2::real) powr of_int (e - 52)"
  have upos: "0 < u" by (simp add: u_def)
  have "of_int e \<le> log 2 x" using assms by (simp add: e_def float_exponent_def)
  then have "2 powr of_int e \<le> x"
    using assms by (simp add: le_log_iff)
  moreover have "2 powr of_int e = 2 ^ 52 * u"
    by (simp add: u_def powr_diff)
  ultimately have "2 ^ 52 \<le> x / u" using upos by (simp add: pos_le_divide_eq)
  then have "1 \<le> x / u" by simp
  then have "0 < \<lfloor>x / u\<rfloor>" by simp
  moreover have "\<lfloor>x / u\<rfloor> \<le> round_half_even (x / u)"
    by (simp add: round_half_even_def Let_def)
  ultimately have "0 < round_half_even (x / u)" by linarith
  with upos have "0 < of_int (round_half_even (x / u)) * u" by simp
  moreover from assms have "fl x = of_int (round_half_even (x / u)) * u"
    unfolding fl_def Let_def u_def e_def by simp
  ultimately show ?thesis by simp
qed

lemma fl_105: "fl 105 = 105"
  using fl_eval [of 6 105] by (simp add: round_half_even_def powr_minus powr_realpow)

text \<open>
  When the loop ends normally it has called \<open>simulate_project\<close> once per iteration, each
  call starting from the generator state \<open>g i\<close> that the previous call returned.
\<close>

lemma mc_loop_runs:
  "mc_loop k li (td, tva, ds0) r = Inr ((td', tva', ds'), r') \<Longrightarrow>
   \<exists>new g. ds' = ds0 @ new \<and> length new = k \<and> g 0 = r \<and> g k = r' \<and>
     (\<forall>i<k. \<exists>val eff.
        simulate_project False li (g i) = Inr (Summary (new ! i) val eff, g (Suc i))) \<and>
     td' = fold (\<lambda>dur total. fl (total + dur)) new td"
proof (induction k arbitrary: td tva ds0 r)
  case 0
  then show ?case by (intro exI [of _ "[]"] exI [of _ "\<lambda>i. r"]) simp
next
  case (Suc k)
  from Suc.prems obtain dur val eff r1 where
    s: "simulate_project False li r = Inr (Summary dur val eff, r1)" and
    l: "mc_loop k li (fl (td + dur), tva + val, ds0 @ [dur]) r1 = Inr ((td', tva', ds'), r')"
    by (auto split: sum.splits sim_result.splits prod.splits)
  from Suc.IH [OF l] obtain new g where
    n: "ds' = (ds0 @ [dur]) @ new" "length new = k" "g 0 = r1" "g k = r'"
       "\<forall>i<k. \<exists>val eff.
          simulate_project False li (g i) = Inr (Summary (new ! i) val eff, g (Suc i))"
       "td' = fold (\<lambda>dur total. fl (total + dur)) new (fl (td + dur))"
    by blast
  define g' where "g' i = (case i of 0 \<Rightarrow> r | Suc j \<Rightarrow> g j)" for i
  have step: "\<exists>val eff. simulate_project False li (g' i) =
                Inr (Summary ((dur # new) ! i) val eff, g' (Suc i))" if "i < Suc k" for i
  proof (cases i)
    case 0
    with s n(3) show ?thesis by (auto simp add: g'_def)
  next
    case (Suc j)
    with that n(5) show ?thesis by (simp add: g'_def)
  qed
  have "ds' = ds0 @ (dur # new)" "length (dur # new) = Suc k" "g' 0 = r" "g' (Suc k) = r'"
    "td' = fold (\<lambda>dur total. fl (total + dur)) (dur # new) td"
    using n by (simp_all add: g'_def)
  with step show ?case by blast
qed

text \<open>The loop ends normally when the draws are in \<open>[0, 1)\<close>.\<close>

lemma mc_loop_unit:
  "unit_draws r \<Longrightarrow> 0 \<le> td \<Longrightarrow>
   \<exists>td' new r'. mc_loop k li (td, tva, ds) r =
               Inr ((td', tva + 105 * real k, ds @ new), r') \<and>
             length new = k \<and> (\<forall>x \<in> set new. 110 \<le> x) \<and> unit_draws r' \<and>
             0 \<le> td' \<and> (0 < k \<longrightarrow> 0 < td')"
proof (induction k arbitrary: td tva ds r)
  case 0
  then show ?case by simp
next
  case (Suc k)
  from simulate_project_unit [OF Suc.prems(1), of li] obtain d1 d2 r1 where
    d: "10 \<le> d1" "5 \<le> d2" and u: "unit_draws r1" and
    s: "simulate_project False li r =
          Inr (Summary (95 + d1 + d2) 105 (100 * (105 / (95 + d1 + d2))), r1)"
    by blast
  from d Suc.prems(2) have "0 < td + (95 + d1 + d2)" by simp
  then have p: "0 < fl (td + (95 + d1 + d2))" by (rule fl_pos)
  then have p0: "0 \<le> fl (td + (95 + d1 + d2))" by simp
  from Suc.IH [OF u p0, of "tva + 105" "ds @ [95 + d1 + d2]"]
  obtain td' new r' where
    l: "mc_loop k li (fl (td + (95 + d1 + d2)), tva + 105, ds @ [95 + d1 + d2]) r1 =
          Inr ((td', tva + 105 + 105 * real k, (ds @ [95 + d1 + d2]) @ new), r')" and
    n: "length new = k" "\<forall>x \<in> set new. 110 \<le> x" "unit_draws r'" "0 \<le> td'"
       "0 < k \<longrightarrow> 0 < td'"
    by blast
  have "mc_loop (Suc k) li (td, tva, ds) r =
          Inr ((td', tva + 105 + 105 * real k, (ds @ [95 + d1 + d2]) @ new), r')"
    by (simp only: mc_loop.simps s sum.case prod.case sim_result.case l)
  moreover have "0 < td'"
  proof (cases k)
    case 0
    with l have "td' = fl (td + (95 + d1 + d2))" by simp
    with p show ?thesis by simp
  next
    case (Suc j)
    with n(5) show ?thesis by simp
  qed
  ultimately show ?case
    using d n
    by (intro exI [of _ td'] exI [of _ "(95 + d1 + d2) # new"] exI [of _ r'])
       (simp add: algebra_simps)
qed

lemma fl_zero: "fl 0 = 0"
  by (simp add: fl_def)

lemma mc_nonpositive: "n \<le> 0 \<Longrightarrow> run_monte_carlo_simulation n li r = Inl ZeroDivisionError"
  by (simp add: run_monte_carlo_simulation_def fl_zero)

lemma mc_positive:
  assumes "0 < n" "unit_draws r"
  shows "\<exists>ds g st.
           length ds = nat n \<and> g 0 = r \<and>
           (\<forall>i<nat n. \<exists>val eff.
              simulate_project False li (g i) = Inr (Summary (ds ! i) val eff, g (Suc i))) \<and>
           run_monte_carlo_simulation n li r = Inr (st, g (nat n)) \<and>
           num_simulations st = n \<and>
           avg_duration st = fl (fold (\<lambda>dur total. fl (total + dur)) ds 0 / of_int n) \<and>
           avg_value_added st = 105 \<and>
           efficiency st = fl (100 * fl (avg_value_added st / avg_duration st)) \<and>
           min_duration st = Min (set ds) \<and> max_duration st = Max (set ds)"
proof -
  from mc_loop_unit [OF assms(2), of 0 "nat n" li 0 "[]"] obtain td ds r' where
    l: "mc_loop (nat n) li (0, 0, []) r = Inr ((td, 105 * real (nat n), ds), r')"
    and n: "length ds = nat n" "0 < nat n \<longrightarrow> 0 < td"
    by auto
  from mc_loop_runs [OF l] obtain g where
    g: "g 0 = r" "g (nat n) = r'"
       "\<forall>i<nat n. \<exists>val eff.
          simulate_project False li (g i) = Inr (Summary (ds ! i) val eff, g (Suc i))"
       "td = fold (\<lambda>dur total. fl (total + dur)) ds 0"
    by auto
  from assms(1) n have ne: "ds \<noteq> []" and tp: "0 < td" by auto
  from assms(1) have rn: "real (nat n) = of_int n" by simp
  from tp assms(1) have "0 < td / of_int n" by simp
  then have ap: "0 < fl (td / of_int n)" by (rule fl_pos)
  have av: "fl (105 * real (nat n) / of_int n) = 105"
    using assms(1) by (simp add: rn fl_105)
  define st where "st = \<lparr>num_simulations = n, avg_duration = fl (td / of_int n),
              avg_value_added = fl (105 * real (nat n) / of_int n),
              efficiency = fl (100 * fl (fl (105 * real (nat n) / of_int n) / fl (td / of_int n))),
              min_duration = Min (set ds), max_duration = Max (set ds)\<rparr>"
  have run: "run_monte_carlo_simulation n li r = Inr (st, g (nat n))"
    using assms(1) ap
    by (simp add: run_monte_carlo_simulation_def l Let_def py_min_eq [OF ne] py_max_eq [OF ne]
          st_def g(2))
  have "num_simulations st = n"
    "avg_duration st = fl (fold (\<lambda>dur total. fl (total + dur)) ds 0 / of_int n)"
    "avg_value_added st = 105"
    "efficiency st = fl (100 * fl (avg_value_added st / avg_duration st))"
    "min_duration st = Min (set ds)" "max_duration st = Max (set ds)"
    by (simp_all add: st_def av g(4))
  with n(1) g(1,3) run show ?thesis by blast
qed

lemma advance_period_draws: "advance 2 (advance 1 period_draws) = period_draws"
  by (simp add: advance_def period_draws_def fun_eq_iff mod_Suc)

lemma period_draws_values:
  "period_draws 0 = 7 / 8" "advance (Suc 0) period_draws 0 = 1 / 2"
  "advance (Suc 0) period_draws (Suc 0) = 1 / 2 ^ 45"
  "advance 2 (advance (Suc 0) period_draws) = period_draws"
  by (simp_all add: advance_def period_draws_def fun_eq_iff mod_Suc)

lemma simulate_project_period:
  "simulate_project False 0 period_draws =
     Inr (Summary (110 + 3 / 2 ^ 45) 105 (100 * (105 / (110 + 3 / 2 ^ 45))), period_draws)"
proof -
  let ?l = "Task Licenciamento 10 False (5 * (1 - 0)) 0.8 [Planejamento]"
  let ?m = "Task Mobilizacao 5 False (3 * (1 - 0)) 0.7 [Licenciamento]"
  have a1: "simulate_duration ?l period_draws = (10, advance 1 period_draws)"
    by (simp add: simulate_duration_eq Task_def period_draws_values)
  have a2: "simulate_duration ?m (advance 1 period_draws) = (5 + 3 / 2 ^ 45, period_draws)"
    by (simp add: simulate_duration_eq Task_def advance_period_draws period_draws_values)
  show ?thesis
    unfolding simulate_project_eq a1 a2 Let_def prod.case by simp
qed

lemma fl_period:
  "fl (0 + (110 + 3 / 2 ^ 45)) = 110 + 3 / 2 ^ 45"
  "fl ((110 + 3 / 2 ^ 45) + (110 + 3 / 2 ^ 45)) = 220 + 6 / 2 ^ 45"
  "fl ((220 + 6 / 2 ^ 45) + (110 + 3 / 2 ^ 45)) = 330 + 8 / 2 ^ 45"
  "fl ((330 + 8 / 2 ^ 45) / 3) = 110 + 5 / 2 ^ 46"
  using fl_eval [of 6 "0 + (110 + 3 / 2 ^ 45)"]
    fl_eval [of 7 "(110 + 3 / 2 ^ 45) + (110 + 3 / 2 ^ 45)"]
    fl_eval [of 8 "(220 + 6 / 2 ^ 45) + (110 + 3 / 2 ^ 45)"]
    fl_eval [of 6 "(330 + 8 / 2 ^ 45) / 3"]
  by (simp_all add: round_half_even_def powr_minus powr_realpow Let_def)

lemma mc_loop_period:
  "mc_loop 3 0 (0, 0, []) period_draws =
     Inr ((330 + 8 / 2 ^ 45, 315,
           [110 + 3 / 2 ^ 45, 110 + 3 / 2 ^ 45, 110 + 3 / 2 ^ 45]), period_draws)"
proof -
  have 3: "(3::nat) = Suc (Suc (Suc 0))" by simp
  show ?thesis
    unfolding 3
    by (simp only: mc_loop.simps simulate_project_period sum.case prod.case sim_result.case
          fl_period append.simps)
       simp
qed

lemma run_period:
  "run_monte_carlo_simulation 3 0 period_draws =
     Inr (\<lparr>num_simulations = 3, avg_duration = 110 + 5 / 2 ^ 46, avg_value_added = 105,
           efficiency = fl (100 * fl (105 / (110 + 5 / 2 ^ 46))),
           min_duration = 110 + 3 / 2 ^ 45, max_duration = 110 + 3 / 2 ^ 45\<rparr>, period_draws)"
proof -
  have n: "nat 3 = 3" by simp
  have a: "fl (315 / of_int 3) = 105" using fl_105 by simp
  have b: "fl ((330 + 8 / 2 ^ 45) / of_int 3) = 110 + 5 / 2 ^ 46"
    using fl_period(4) by simp
  have c: "(110 + 5 / 2 ^ 46 :: real) \<noteq> 0" by simp
  have m: "py_min [110 + 3 / 2 ^ 45, 110 + 3 / 2 ^ 45, 110 + 3 / 2 ^ 45 :: real]
             = Inr (110 + 3 / 2 ^ 45)"
    "py_max [110 + 3 / 2 ^ 45, 110 + 3 / 2 ^ 45, 110 + 3 / 2 ^ 45 :: real]
             = Inr (110 + 3 / 2 ^ 45)"
    by (simp_all add: py_min_def py_max_def)
  show ?thesis
    unfolding run_monte_carlo_simulation_def n mc_loop_period sum.case prod.case Let_def a b m
    using c by simp
qed

lemma simulate_project_example_summary:
  "simulate_project False 0 example_draws =
     Inr (Summary (223 / 2) 105 (100 * (105 / (223 / 2))), half_draws)"
proof -
  let ?l = "Task Licenciamento 10 False (5 * (1 - 0)) 0.8 [Planejamento]"
  let ?m = "Task Mobilizacao 5 False (3 * (1 - 0)) 0.7 [Licenciamento]"
  have a1: "simulate_duration ?l example_draws = (10, advance 2 example_draws)"
    by (simp add: simulate_duration_eq Task_def example_draws_def)
  have a2: "simulate_duration ?m (advance 2 example_draws) = (13 / 2, half_draws)"
    by (simp add: simulate_duration_eq Task_def advance_example_draws)
       (simp add: advance_def example_draws_def)
  show ?thesis
    unfolding simulate_project_eq a1 a2 Let_def prod.case by simp
qed

lemma simulate_project_half_summary:
  "simulate_project False 0 half_draws =
     Inr (Summary 114 105 (100 * (105 / 114)), half_draws)"
proof -
  let ?l = "Task Licenciamento 10 False (5 * (1 - 0)) 0.8 [Planejamento]"
  let ?m = "Task Mobilizacao 5 False (3 * (1 - 0)) 0.7 [Licenciamento]"
  have b1: "simulate_duration ?l half_draws = (25 / 2, half_draws)"
    by (simp add: simulate_duration_eq Task_def advance_half_draws) (simp add: half_draws_def)
  have b2: "simulate_duration ?m half_draws = (13 / 2, half_draws)"
    by (simp add: simulate_duration_eq Task_def advance_half_draws) (simp add: half_draws_def)
  show ?thesis
    unfolding simulate_project_eq b1 b2 Let_def prod.case by simp
qed

lemma fl_example:
  "fl (0 + 223 / 2) = 223 / 2" "fl (223 / 2 + 114) = 451 / 2" "fl (451 / 2 / 2) = 451 / 4"
  "fl (210 / 2) = 105"
  using fl_eval [of 6 "0 + 223 / 2"] fl_eval [of 7 "223 / 2 + 114"]
    fl_eval [of 6 "451 / 2 / 2"] fl_eval [of 6 "210 / 2"]
  by (simp_all add: round_half_even_def powr_minus powr_realpow Let_def)

lemma mc_loop_example:
  "mc_loop 2 0 (0, 0, []) example_draws = Inr ((451 / 2, 210, [223 / 2, 114]), half_draws)"
proof -
  have 2: "(2::nat) = Suc (Suc 0)" by simp
  show ?thesis
    unfolding 2
    by (simp only: mc_loop.simps simulate_project_example_summary simulate_project_half_summary
          sum.case prod.case sim_result.case fl_example append.simps)
       simp
qed

lemma run_example:
  "run_monte_carlo_simulation 2 0 example_draws =
     Inr (\<lparr>num_simulations = 2, avg_duration = 451 / 4, avg_value_added = 105,
           efficiency = fl (100 * fl (105 / (451 / 4))),
           min_duration = 223 / 2, max_duration = 114\<rparr>, half_draws)"
proof -
  have n: "nat 2 = 2" by simp
  have a: "fl (210 / of_int 2) = 105" using fl_example(4) by simp
  have b: "fl (451 / 2 / of_int 2) = 451 / 4" using fl_example(3) by simp
  have c: "(451 / 4 :: real) \<noteq> 0" by simp
  have m: "py_min [223 / 2, 114 :: real] = Inr (223 / 2)"
    "py_max [223 / 2, 114 :: real] = Inr 114"
    by (simp_all add: py_min_def py_max_def)
  show ?thesis
    unfolding run_monte_carlo_simulation_def n mc_loop_example sum.case prod.case Let_def a b m
    using c by simp
qed

text \<open>
  The relative error of one rounding is at most \<open>2^-53\<close>; a running sum of \<open>n\<close>
  non-negative numbers is therefore between the exact sum times \<open>(1 - 2^-53)^n\<close> and
  times \<open>(1 + 2^-53)^n\<close>, and the mean computed from it between the minimum times
  \<open>(1 - 2^-53)^(n+1)\<close> and the maximum times \<open>(1 + 2^-53)^(n+1)\<close>.
\<close>

lemma round_half_even_error: "\<bar>of_int (round_half_even y) - y\<bar> \<le> 1 / 2"
proof -
  have "of_int \<lfloor>y\<rfloor> \<le> y" "y < of_int \<lfloor>y\<rfloor> + 1" by linarith+
  then show ?thesis
    by (auto simp add: round_half_even_def Let_def abs_le_iff)
qed

lemma fl_error: "\<bar>fl x - x\<bar> \<le> \<bar>x\<bar> / 2 ^ 53"
proof (cases "x = 0")
  case True
  then show ?thesis by (simp add: fl_def)
next
  case False
  define e where "e = float_exponent x"
  define u where "u = (2::real) powr of_int (e - 52)"
  have upos: "0 < u" by (simp add: u_def)
  from False have ax: "0 < \<bar>x\<bar>" by simp
  have "of_int e \<le> log 2 \<bar>x\<bar>" by (simp add: e_def float_exponent_def)
  then have "2 powr of_int e \<le> \<bar>x\<bar>" using ax by (simp add: le_log_iff)
  moreover have "2 powr of_int e = 2 ^ 52 * u" by (simp add: u_def powr_diff)
  ultimately have ub: "2 ^ 52 * u \<le> \<bar>x\<bar>" by simp
  have f: "fl x = of_int (round_half_even (x / u)) * u"
    using False by (simp add: fl_def Let_def e_def u_def)
  have "fl x - x = (of_int (round_half_even (x / u)) - x / u) * u"
    using upos by (simp add: f algebra_simps)
  then have "\<bar>fl x - x\<bar> = \<bar>of_int (round_half_even (x / u)) - x / u\<bar> * u"
    using upos by (simp add: abs_mult)
  also have "\<dots> \<le> 1 / 2 * u"
    using round_half_even_error [of "x / u"] upos by (intro mult_right_mono) simp_all
  also have "\<dots> = (2 ^ 52 * u) / 2 ^ 53" by simp
  also have "\<dots> \<le> \<bar>x\<bar> / 2 ^ 53" using ub by (intro divide_right_mono) simp_all
  finally show ?thesis .
qed

lemma fl_bounds:
  assumes "0 \<le> x"
  shows "x * (1 - 1 / 2 ^ 53) \<le> fl x" "fl x \<le> x * (1 + 1 / 2 ^ 53)"
proof -
  from fl_error [of x] assms have "\<bar>fl x - x\<bar> \<le> x / 2 ^ 53" by simp
  then have "fl x - x \<le> x / 2 ^ 53" "- (x / 2 ^ 53) \<le> fl x - x" by linarith+
  then show "x * (1 - 1 / 2 ^ 53) \<le> fl x" "fl x \<le> x * (1 + 1 / 2 ^ 53)"
    by (simp_all add: algebra_simps)
qed

lemma fl_nonneg: "0 \<le> x \<Longrightarrow> 0 \<le> fl x"
  using fl_pos [of x] by (cases "x = 0") (simp_all add: fl_def less_eq_real_def)

lemma sum_list_nonneg_real: "\<forall>x \<in> set xs. (0::real) \<le> x \<Longrightarrow> 0 \<le> sum_list xs"
  by (induction xs) auto

lemma float_sum_upper:
  assumes "\<forall>x \<in> set ds. 0 \<le> x" "0 \<le> td"
  shows "fold (\<lambda>dur total. fl (total + dur)) ds td \<le>
           (td + sum_list ds) * (1 + 1 / 2 ^ 53) ^ length ds"
  using assms
proof (induction ds arbitrary: td)
  case Nil
  then show ?case by simp
next
  case (Cons d ds)
  let ?e = "1 + 1 / 2 ^ 53 :: real"
  from Cons.prems have d: "0 \<le> d" and r: "\<forall>x \<in> set ds. 0 \<le> x" by simp_all
  from d Cons.prems(2) have s: "0 \<le> td + d" by simp
  from r have sd: "0 \<le> sum_list ds" by (rule sum_list_nonneg_real)
  have e1: "1 \<le> ?e" by simp
  have "fold (\<lambda>dur total. fl (total + dur)) (d # ds) td =
        fold (\<lambda>dur total. fl (total + dur)) ds (fl (td + d))" by simp
  also have "\<dots> \<le> (fl (td + d) + sum_list ds) * ?e ^ length ds"
    by (rule Cons.IH [OF r fl_nonneg [OF s]])
  also have "\<dots> \<le> ((td + d) * ?e + sum_list ds * ?e) * ?e ^ length ds"
  proof (rule mult_right_mono)
    have "sum_list ds \<le> sum_list ds * ?e" using sd by (simp add: algebra_simps)
    with fl_bounds(2) [OF s] show "fl (td + d) + sum_list ds \<le> (td + d) * ?e + sum_list ds * ?e"
      by linarith
    show "0 \<le> ?e ^ length ds" by simp
  qed
  also have "\<dots> = (td + sum_list (d # ds)) * ?e ^ length (d # ds)"
    by (simp add: algebra_simps)
  finally show ?case .
qed

lemma float_sum_lower:
  assumes "\<forall>x \<in> set ds. 0 \<le> x" "0 \<le> td"
  shows "(td + sum_list ds) * (1 - 1 / 2 ^ 53) ^ length ds \<le>
           fold (\<lambda>dur total. fl (total + dur)) ds td"
  using assms
proof (induction ds arbitrary: td)
  case Nil
  then show ?case by simp
next
  case (Cons d ds)
  let ?e = "1 - 1 / 2 ^ 53 :: real"
  from Cons.prems have d: "0 \<le> d" and r: "\<forall>x \<in> set ds. 0 \<le> x" by simp_all
  from d Cons.prems(2) have s: "0 \<le> td + d" by simp
  from r have sd: "0 \<le> sum_list ds" by (rule sum_list_nonneg_real)
  have e0: "0 \<le> ?e" and e1: "?e \<le> 1" by simp_all
  have "(td + sum_list (d # ds)) * ?e ^ length (d # ds) =
        ((td + d) * ?e + sum_list ds * ?e) * ?e ^ length ds"
    by (simp add: algebra_simps)
  also have "\<dots> \<le> (fl (td + d) + sum_list ds) * ?e ^ length ds"
  proof (rule mult_right_mono)
    have "sum_list ds * ?e \<le> sum_list ds" using sd by (simp add: algebra_simps)
    with fl_bounds(1) [OF s] show "(td + d) * ?e + sum_list ds * ?e \<le> fl (td + d) + sum_list ds"
      by linarith
    show "0 \<le> ?e ^ length ds" using e0 by simp
  qed
  also have "\<dots> \<le> fold (\<lambda>dur total. fl (total + dur)) ds (fl (td + d))"
    by (rule Cons.IH [OF r fl_nonneg [OF s]])
  also have "\<dots> = fold (\<lambda>dur total. fl (total + dur)) (d # ds) td" by simp
  finally show ?case .
qed

lemma float_mean_bounds:
  assumes "ds \<noteq> []" "\<forall>x \<in> set ds. 0 \<le> x"
  shows "Min (set ds) * (1 - 1 / 2 ^ 53) ^ Suc (length ds) \<le>
           fl (fold (\<lambda>dur total. fl (total + dur)) ds 0 / real (length ds))"
    and "fl (fold (\<lambda>dur total. fl (total + dur)) ds 0 / real (length ds)) \<le>
           Max (set ds) * (1 + 1 / 2 ^ 53) ^ Suc (length ds)"
proof -
  let ?S = "fold (\<lambda>dur total. fl (total + dur)) ds 0"
  let ?n = "real (length ds)"
  let ?l = "1 - 1 / 2 ^ 53 :: real"
  let ?u = "1 + 1 / 2 ^ 53 :: real"
  from assms(1) have n: "0 < ?n" by simp
  have l0: "0 \<le> ?l" and u0: "0 \<le> ?u" by simp_all
  from float_sum_lower [OF assms(2), of 0] have lo: "sum_list ds * ?l ^ length ds \<le> ?S" by simp
  from float_sum_upper [OF assms(2), of 0] have up: "?S \<le> sum_list ds * ?u ^ length ds" by simp
  have sd: "0 \<le> sum_list ds" using assms(2) by (rule sum_list_nonneg_real)
  have S0: "0 \<le> ?S"
  proof -
    have "0 \<le> sum_list ds * ?l ^ length ds" using sd l0 by simp
    with lo show ?thesis by linarith
  qed
  then have q0: "0 \<le> ?S / ?n" using n by simp
  have mn: "Min (set ds) \<le> sum_list ds / ?n" and mx: "sum_list ds / ?n \<le> Max (set ds)"
    using mean_between [OF assms(1)] by simp_all
  have "Min (set ds) * ?l ^ Suc (length ds) = (Min (set ds) * ?l ^ length ds) * ?l" by simp
  also have "\<dots> \<le> (sum_list ds / ?n * ?l ^ length ds) * ?l"
    using mn l0 by (intro mult_right_mono) simp_all
  also have "\<dots> = (sum_list ds * ?l ^ length ds) / ?n * ?l" by simp
  also have "\<dots> \<le> ?S / ?n * ?l"
    using lo n l0 by (intro mult_right_mono divide_right_mono) simp_all
  also have "\<dots> \<le> fl (?S / ?n)" by (rule fl_bounds(1) [OF q0])
  finally show "Min (set ds) * ?l ^ Suc (length ds) \<le> fl (?S / ?n)" .
  have "fl (?S / ?n) \<le> ?S / ?n * ?u" by (rule fl_bounds(2) [OF q0])
  also have "\<dots> \<le> (sum_list ds * ?u ^ length ds) / ?n * ?u"
    using up n u0 by (intro mult_right_mono divide_right_mono) simp_all
  also have "\<dots> = (sum_list ds / ?n * ?u ^ length ds) * ?u" by simp
  also have "\<dots> \<le> (Max (set ds) * ?u ^ length ds) * ?u"
    using mx u0 by (intro mult_right_mono) simp_all
  also have "\<dots> = Max (set ds) * ?u ^ Suc (length ds)" by simp
  finally show "fl (?S / ?n) \<le> Max (set ds) * ?u ^ Suc (length ds)" .
qed

text \<open>
  Claim C8, as stated, fails.  The runner does not validate \<open>num_simulations\<close>: with 0 the
  division by \<open>num_simulations\<close> raises \<open>ZeroDivisionError\<close>, with a negative number the
  loop body never runs, the averages are 0 and the efficiency divides by the average
  duration 0.  No \<open>InvalidParameter\<close> is raised.
\<close>

theorem mc_zero_division:
  "run_monte_carlo_simulation 0 0 half_draws = Inl ZeroDivisionError \<and>
   run_monte_carlo_simulation 0 0 half_draws \<noteq> Inl InvalidParameter \<and>
   run_monte_carlo_simulation (-5) 0 half_draws = Inl ZeroDivisionError \<and>
   run_monte_carlo_simulation (-5) 0 half_draws \<noteq> Inl InvalidParameter"
  by (simp add: run_monte_carlo_simulation_def fl_zero)

text \<open>
  Claim C8, amended.  For \<open>num_simulations \<le> 0\<close> the runner fails with
  \<open>ZeroDivisionError\<close>, without clamping or defaulting.  For every positive
  \<open>num_simulations\<close> and draws in \<open>[0, 1)\<close> it calls \<open>simulate_project\<close> that many times:
  run \<open>i\<close> starts from the generator state \<open>g i\<close> that run \<open>i - 1\<close> returned and yields the
  \<open>i\<close>-th observed duration.  It completes with the generator of the last run and with the
  statistics of the observed durations: the rounded mean of the float running sum, the mean
  of value-adding work 105, the efficiency from the two means, the minimum and the maximum.
\<close>

theorem mc_num_simulations:
  "(n \<le> 0 \<longrightarrow> run_monte_carlo_simulation n li r = Inl ZeroDivisionError) \<and>
   (0 < n \<and> unit_draws r \<longrightarrow>
      (\<exists>ds g st.
           length ds = nat n \<and> g 0 = r \<and>
           (\<forall>i<nat n. \<exists>val eff.
              simulate_project False li (g i) = Inr (Summary (ds ! i) val eff, g (Suc i))) \<and>
           run_monte_carlo_simulation n li r = Inr (st, g (nat n)) \<and>
           num_simulations st = n \<and>
           avg_duration st = fl (fold (\<lambda>dur total. fl (total + dur)) ds 0 / of_int n) \<and>
           avg_value_added st = 105 \<and>
           efficiency st = fl (100 * fl (avg_value_added st / avg_duration st)) \<and>
           min_duration st = Min (set ds) \<and> max_duration st = Max (set ds)))"
proof (rule conjI)
  show "n \<le> 0 \<longrightarrow> run_monte_carlo_simulation n li r = Inl ZeroDivisionError"
    using mc_nonpositive [of n li r] by blast
next
  show "0 < n \<and> unit_draws r \<longrightarrow>
      (\<exists>ds g st.
           length ds = nat n \<and> g 0 = r \<and>
           (\<forall>i<nat n. \<exists>val eff.
              simulate_project False li (g i) = Inr (Summary (ds ! i) val eff, g (Suc i))) \<and>
           run_monte_carlo_simulation n li r = Inr (st, g (nat n)) \<and>
           num_simulations st = n \<and>
           avg_duration st = fl (fold (\<lambda>dur total. fl (total + dur)) ds 0 / of_int n) \<and>
           avg_value_added st = 105 \<and>
           efficiency st = fl (100 * fl (avg_value_added st / avg_duration st)) \<and>
           min_duration st = Min (set ds) \<and> max_duration st = Max (set ds))"
  proof
    assume "0 < n \<and> unit_draws r"
    then have "0 < n" "unit_draws r" by simp_all
    then show "\<exists>ds g st.
           length ds = nat n \<and> g 0 = r \<and>
           (\<forall>i<nat n. \<exists>val eff.
              simulate_project False li (g i) = Inr (Summary (ds ! i) val eff, g (Suc i))) \<and>
           run_monte_carlo_simulation n li r = Inr (st, g (nat n)) \<and>
           num_simulations st = n \<and>
           avg_duration st = fl (fold (\<lambda>dur total. fl (total + dur)) ds 0 / of_int n) \<and>
           avg_value_added st = 105 \<and>
           efficiency st = fl (100 * fl (avg_value_added st / avg_duration st)) \<and>
           min_duration st = Min (set ds) \<and> max_duration st = Max (set ds)"
      by (rule mc_positive)
  qed
qed

theorem mc_num_simulations_witness:
  "run_monte_carlo_simulation (-2) 0 half_draws = Inl ZeroDivisionError \<and>
   (\<exists>(ds :: real list) g st. length ds = nat 2 \<and> g 0 = example_draws \<and>
      g (Suc 0) = half_draws \<and> ds ! 0 = 223 / 2 \<and> ds ! 1 = 114 \<and>
      run_monte_carlo_simulation 2 0 example_draws = Inr (st, g (nat 2)) \<and>
      num_simulations st = 2 \<and> avg_value_added st = 105)"
proof -
  have "(-2::int) \<le> 0" by simp
  with mc_num_simulations [of "-2" 0 half_draws]
  have 1: "run_monte_carlo_simulation (-2) 0 half_draws = Inl ZeroDivisionError" by blast
  have u: "unit_draws example_draws" by (simp add: unit_draws_def example_draws_def)
  then have "(0::int) < 2 \<and> unit_draws example_draws" by simp
  with mc_num_simulations [of 2 0 example_draws] obtain ds g st where
    a: "length ds = nat 2" "g 0 = example_draws"
       "\<forall>i<nat 2. \<exists>val eff.
          simulate_project False 0 (g i) = Inr (Summary (ds ! i) val eff, g (Suc i))"
       "run_monte_carlo_simulation 2 0 example_draws = Inr (st, g (nat 2))"
       "num_simulations st = 2" "avg_value_added st = 105"
    by blast
  from a(3) have
    s0: "\<exists>val eff. simulate_project False 0 (g 0) = Inr (Summary (ds ! 0) val eff, g (Suc 0))"
    and s1: "\<exists>val eff. simulate_project False 0 (g 1) = Inr (Summary (ds ! 1) val eff, g (Suc 1))"
    by simp_all
  from s0 a(2) simulate_project_example_summary have b: "ds ! 0 = 223 / 2" "g (Suc 0) = half_draws"
    by auto
  from s1 b(2) simulate_project_half_summary have c: "ds ! 1 = 114" by auto
  from 1 a b c show ?thesis by blast
qed

text \<open>
  Claim C9, as stated, fails.  The mean is the rounded quotient of a running sum that is
  rounded at every addition.  With \<open>lean_improvement = 0\<close> and a generator repeating
  \<open>7/8\<close>, \<open>1/2\<close>, \<open>2^-45\<close>, every run lasts \<open>110 + 3/2^45\<close> days, a binary64 number reached
  without any rounding inside \<open>simulate_project\<close>; the sum of three runs is rounded down to
  \<open>330 + 8/2^45\<close> and the mean reported, \<open>110 + 5/2^46\<close>, is below the minimum.
\<close>

theorem mean_below_min:
  "run_monte_carlo_simulation 3 0 period_draws =
     Inr (\<lparr>num_simulations = 3, avg_duration = 110 + 5 / 2 ^ 46, avg_value_added = 105,
           efficiency = fl (100 * fl (105 / (110 + 5 / 2 ^ 46))),
           min_duration = 110 + 3 / 2 ^ 45, max_duration = 110 + 3 / 2 ^ 45\<rparr>, period_draws) \<and>
   (110 + 5 / 2 ^ 46 :: real) < 110 + 3 / 2 ^ 45"
proof -
  have "(110 + 5 / 2 ^ 46 :: real) < 110 + 3 / 2 ^ 45" by simp
  with run_period show ?thesis by (rule conjI)
qed

text \<open>
  Claim C9, amended.  Whenever \<open>run_monte_carlo_simulation\<close> completes, the number of runs
  \<open>n\<close> is positive, the minimum reported is at most the maximum, and the exact mean of the
  observed total durations lies between them.  The mean reported is the rounded quotient of
  the rounded running sum of these durations, which may leave that interval; with draws in
  \<open>[0, 1)\<close> every observed duration is at least 110 and the mean reported is at least
  the minimum times \<open>(1 - 2^-53)^(n+1)\<close> and at most the maximum times
  \<open>(1 + 2^-53)^(n+1)\<close>.
\<close>

theorem mc_min_mean_max:
  assumes "run_monte_carlo_simulation n li r = Inr (st, r')"
  shows "0 < n \<and>
         (\<exists>ds td tva.
            mc_loop (nat n) li (0, 0, []) r = Inr ((td, tva, ds), r') \<and>
            length ds = nat n \<and>
            min_duration st = Min (set ds) \<and> max_duration st = Max (set ds) \<and>
            min_duration st \<le> max_duration st \<and>
            min_duration st \<le> sum_list ds / of_int n \<and>
            sum_list ds / of_int n \<le> max_duration st \<and>
            avg_duration st = fl (fold (\<lambda>dur total. fl (total + dur)) ds 0 / of_int n) \<and>
            (unit_draws r \<longrightarrow>
               110 \<le> min_duration st \<and>
               min_duration st * (1 - 1 / 2 ^ 53) ^ Suc (nat n) \<le> avg_duration st \<and>
               avg_duration st \<le> max_duration st * (1 + 1 / 2 ^ 53) ^ Suc (nat n)))"
proof -
  from assms obtain td tva ds where
    l: "mc_loop (nat n) li (0, 0, []) r = Inr ((td, tva, ds), r')"
    by (auto simp add: run_monte_carlo_simulation_def Let_def
          split: sum.splits prod.splits if_splits)
  from mc_loop_runs [OF l] have len: "length ds = nat n"
    and td: "td = fold (\<lambda>dur total. fl (total + dur)) ds 0"
    by auto
  from assms l have nz: "n \<noteq> 0" and avg0: "fl (td / of_int n) \<noteq> 0"
    by (auto simp add: run_monte_carlo_simulation_def Let_def split: if_splits)
  have pos: "0 < n"
  proof (rule ccontr)
    assume "\<not> 0 < n"
    with len have "ds = []" by simp
    with td avg0 show False by (simp add: fl_zero)
  qed
  with len have ne: "ds \<noteq> []" and rl: "real (length ds) = of_int n"
    by auto
  from assms l nz avg0 have
    st: "min_duration st = Min (set ds)" "max_duration st = Max (set ds)"
        "avg_duration st = fl (td / of_int n)"
    by (auto simp add: run_monte_carlo_simulation_def Let_def py_min_eq [OF ne] py_max_eq [OF ne])
  from mean_between [OF ne] have
    mb: "Min (set ds) \<le> sum_list ds / of_int n" "sum_list ds / of_int n \<le> Max (set ds)"
    by (simp_all add: rl)
  then have mm: "Min (set ds) \<le> Max (set ds)" by linarith
  have fb: "unit_draws r \<longrightarrow>
      110 \<le> min_duration st \<and>
      min_duration st * (1 - 1 / 2 ^ 53) ^ Suc (nat n) \<le> avg_duration st \<and>
      avg_duration st \<le> max_duration st * (1 + 1 / 2 ^ 53) ^ Suc (nat n)"
  proof
    assume u: "unit_draws r"
    have "(0::real) \<le> 0" by simp
    from mc_loop_unit [OF u this, of "nat n" li 0 "[]"] l
    have g: "\<forall>x \<in> set ds. 110 \<le> x" by auto
    then have nn: "\<forall>x \<in> set ds. 0 \<le> x" by auto
    from ne g have "110 \<le> Min (set ds)" by simp
    moreover note b = float_mean_bounds [OF ne nn, unfolded rl]
    have "Min (set ds) * (1 - 1 / 2 ^ 53) ^ Suc (nat n) \<le> fl (td / of_int n)"
      "fl (td / of_int n) \<le> Max (set ds) * (1 + 1 / 2 ^ 53) ^ Suc (nat n)"
      unfolding td by (rule b [unfolded len])+
    ultimately show "110 \<le> min_duration st \<and>
      min_duration st * (1 - 1 / 2 ^ 53) ^ Suc (nat n) \<le> avg_duration st \<and>
      avg_duration st \<le> max_duration st * (1 + 1 / 2 ^ 53) ^ Suc (nat n)"
      unfolding st by (intro conjI)
  qed
  have "mc_loop (nat n) li (0, 0, []) r = Inr ((td, tva, ds), r') \<and>
            length ds = nat n \<and>
            min_duration st = Min (set ds) \<and> max_duration st = Max (set ds) \<and>
            min_duration st \<le> max_duration st \<and>
            min_duration st \<le> sum_list ds / of_int n \<and>
            sum_list ds / of_int n \<le> max_duration st \<and>
            avg_duration st = fl (fold (\<lambda>dur total. fl (total + dur)) ds 0 / of_int n) \<and>
            (unit_draws r \<longrightarrow>
               110 \<le> min_duration st \<and>
               min_duration st * (1 - 1 / 2 ^ 53) ^ Suc (nat n) \<le> avg_duration st \<and>
               avg_duration st \<le> max_duration st * (1 + 1 / 2 ^ 53) ^ Suc (nat n))"
    using l len st mb mm td fb by (intro conjI) simp_all
  then show ?thesis using pos by blast
qed

theorem mc_min_mean_max_witness:
  "unit_draws example_draws \<and>
   (\<exists>ds td tva.
     mc_loop (nat 2) 0 (0, 0, []) example_draws = Inr ((td, tva, ds), half_draws) \<and>
     length ds = nat 2 \<and>
     Min (set ds) = 223 / 2 \<and> Max (set ds) = 114 \<and>
     (223 / 2 :: real) \<le> sum_list ds / of_int 2 \<and>
     sum_list ds / of_int 2 \<le> (114 :: real) \<and>
     (451 / 4 :: real) = fl (fold (\<lambda>dur total. fl (total + dur)) ds 0 / of_int 2) \<and>
     (110 :: real) \<le> 223 / 2 \<and>
     (223 / 2 :: real) * (1 - 1 / 2 ^ 53) ^ Suc (nat 2) \<le> 451 / 4 \<and>
     (451 / 4 :: real) \<le> 114 * (1 + 1 / 2 ^ 53) ^ Suc (nat 2))"
proof -
  have u: "unit_draws example_draws" by (simp add: unit_draws_def example_draws_def)
  from mc_min_mean_max [OF run_example] u show ?thesis by simp
qed

subsection \<open>The topological ordering\<close>

lemma fold_upd_Some:
  "fold (\<lambda>t m. m(name t \<mapsto> t)) ts m0 k = Some t \<Longrightarrow>
   (name t = k \<and> t \<in> set ts) \<or> m0 k = Some t"
proof (induction ts arbitrary: m0)
  case Nil
  then show ?case by simp
next
  case (Cons a ts)
  from Cons.prems have "fold (\<lambda>t m. m(name t \<mapsto> t)) ts (m0(name a \<mapsto> a)) k = Some t"
    by (simp only: fold.simps o_apply)
  from Cons.IH [OF this] show ?case
    by (cases "k = name a") auto
qed

lemma fold_upd_dom:
  "dom (fold (\<lambda>t m. m(name t \<mapsto> t)) ts m0) = name ` set ts \<union> dom m0"
  by (induction ts arbitrary: m0) auto

lemma tasks_by_name_Some:
  "tasks_by_name tasks k = Some t \<Longrightarrow> name t = k \<and> t \<in> set tasks"
  using fold_upd_Some [of tasks Map.empty k t] by (simp add: tasks_by_name_def)

lemma tasks_by_name_dom: "dom (tasks_by_name tasks) = name ` set tasks"
  by (simp add: tasks_by_name_def fold_upd_dom)

lemma sorted_from_append:
  "sorted_from S (xs @ [t]) =
     (sorted_from S xs \<and> set (dependencies t) \<subseteq> S \<union> name ` set xs)"
  by (induction xs arbitrary: S) auto

lemma visit_inv_append:
  assumes "visit_inv tasks (seen, order)" "set (dependencies t) \<subseteq> seen" "t \<in> set tasks"
    "name t \<notin> seen"
  shows "visit_inv tasks (insert (name t) seen, order @ [t])"
  using assms by (auto simp add: visit_inv_def sorted_from_append)

lemma visit_ok:
  "(visit d (tasks_by_name tasks) t s = Inr s' \<longrightarrow> visit_inv tasks s \<longrightarrow> t \<in> set tasks \<longrightarrow>
      visit_inv tasks s' \<and> fst s \<subseteq> fst s' \<and> name t \<in> fst s' \<and>
      set (dependencies t) \<subseteq> fst s')"
  "(visit_deps d (tasks_by_name tasks) deps s = Inr s' \<longrightarrow> visit_inv tasks s \<longrightarrow>
      visit_inv tasks s' \<and> fst s \<subseteq> fst s' \<and> set deps \<subseteq> fst s')"
proof (induction d "tasks_by_name tasks" t s and d "tasks_by_name tasks" deps s
        arbitrary: s' and s' rule: visit_visit_deps.induct)
  case (1 t s)
  then show ?case by simp
next
  case (2 d t s)
  show ?case
  proof (intro impI)
    assume v: "visit (Suc d) (tasks_by_name tasks) t s = Inr s'"
      and i: "visit_inv tasks s" and t: "t \<in> set tasks"
    from v obtain seen order where
      vd: "visit_deps d (tasks_by_name tasks) (dependencies t) s = Inr (seen, order)"
      by (auto split: sum.splits)
    from 2 [of "(seen, order)"] vd i have
      a: "visit_inv tasks (seen, order)" "fst s \<subseteq> seen" "set (dependencies t) \<subseteq> seen"
      by auto
    show "visit_inv tasks s' \<and> fst s \<subseteq> fst s' \<and> name t \<in> fst s' \<and>
          set (dependencies t) \<subseteq> fst s'"
    proof (cases "name t \<in> seen")
      case True
      with v vd have "s' = (seen, order)" by simp
      with a True show ?thesis by simp
    next
      case False
      with v vd have "s' = (insert (name t) seen, order @ [t])" by simp
      with a False t visit_inv_append [of tasks seen order t] show ?thesis by auto
    qed
  qed
next
  case (3 d s)
  then show ?case by simp
next
  case (4 d dep deps s)
  show ?case
  proof (intro impI)
    assume v: "visit_deps d (tasks_by_name tasks) (dep # deps) s = Inr s'"
      and i: "visit_inv tasks s"
    show "visit_inv tasks s' \<and> fst s \<subseteq> fst s' \<and> set (dep # deps) \<subseteq> fst s'"
    proof (cases "dep \<in> fst s")
      case True
      with v have "visit_deps d (tasks_by_name tasks) deps s = Inr s'" by simp
      with 4(3) [of s'] True i show ?thesis by auto
    next
      case False
      with v obtain t' s1 where
        tb: "tasks_by_name tasks dep = Some t'" and
        v1: "visit d (tasks_by_name tasks) t' s = Inr s1" and
        v2: "visit_deps d (tasks_by_name tasks) deps s1 = Inr s'"
        by (auto split: option.splits sum.splits)
      from tasks_by_name_Some [OF tb] have t': "name t' = dep" "t' \<in> set tasks" by simp_all
      from 4(1) [OF False tb, of s1] v1 i t' have
        a: "visit_inv tasks s1" "fst s \<subseteq> fst s1" "dep \<in> fst s1" by auto
      from 4(2) [OF False tb v1, of s'] v2 a have
        "visit_inv tasks s'" "fst s1 \<subseteq> fst s'" "set deps \<subseteq> fst s'" by auto
      with a show ?thesis by auto
    qed
  qed
qed

lemma visit_all_ok:
  "visit_all d (tasks_by_name tasks) ts s = Inr s' \<Longrightarrow> visit_inv tasks s \<Longrightarrow>
   set ts \<subseteq> set tasks \<Longrightarrow>
   visit_inv tasks s' \<and> fst s \<subseteq> fst s' \<and> name ` set ts \<subseteq> fst s' \<and>
   (\<forall>t \<in> set ts. set (dependencies t) \<subseteq> fst s')"
proof (induction ts arbitrary: s)
  case Nil
  then show ?case by simp
next
  case (Cons t ts)
  from Cons.prems(1) obtain s1 where
    v1: "visit d (tasks_by_name tasks) t s = Inr s1" and
    v2: "visit_all d (tasks_by_name tasks) ts s1 = Inr s'"
    by (auto split: sum.splits)
  from visit_ok(1) [of d tasks t s s1] v1 Cons.prems have
    a: "visit_inv tasks s1" "fst s \<subseteq> fst s1" "name t \<in> fst s1"
       "set (dependencies t) \<subseteq> fst s1"
    by auto
  from Cons.IH [OF v2 a(1)] Cons.prems(3) have
    b: "visit_inv tasks s'" "fst s1 \<subseteq> fst s'" "name ` set ts \<subseteq> fst s'"
       "\<forall>t \<in> set ts. set (dependencies t) \<subseteq> fst s'"
    by auto
  from a b show ?case by auto
qed

lemma topo_order_ok:
  assumes "topo_order d tasks = Inr order"
  shows "distinct (map name order)" "sorted_from {} order" "set order \<subseteq> set tasks"
    "name ` set order = name ` set tasks" "well_referenced tasks"
proof -
  from assms obtain seen where
    v: "visit_all d (tasks_by_name tasks) tasks ({}, []) = Inr (seen, order)"
    by (auto simp add: topo_order_def split: sum.splits)
  have "visit_inv tasks ({}, [])" by (simp add: visit_inv_def)
  from visit_all_ok [OF v this] have
    i: "visit_inv tasks (seen, order)" and n: "name ` set tasks \<subseteq> seen" and
    w: "\<forall>t \<in> set tasks. set (dependencies t) \<subseteq> seen"
    by auto
  from i show "distinct (map name order)" "sorted_from {} order" "set order \<subseteq> set tasks"
    by (simp_all add: visit_inv_def)
  from i have s: "seen = name ` set order" "set order \<subseteq> set tasks"
    by (simp_all add: visit_inv_def)
  with n show "name ` set order = name ` set tasks" by auto
  with w s show "well_referenced tasks" by (auto simp add: well_referenced_def)
qed

lemma dep_chain_snoc:
  "c \<noteq> [] \<Longrightarrow>
   dep_chain ts (c @ [t]) = (dep_chain ts c \<and> name (last c) \<in> set (dependencies t) \<and> t \<in> set ts)"
  by (induction ts c rule: dep_chain.induct) auto

lemma dep_chain_set: "dep_chain ts c \<Longrightarrow> set c \<subseteq> set ts"
  by (induction ts c rule: dep_chain.induct) auto

lemma dep_chain_suffix: "dep_chain ts (xs @ ys) \<Longrightarrow> ys \<noteq> [] \<Longrightarrow> dep_chain ts ys"
proof (induction xs)
  case Nil
  then show ?case by simp
next
  case (Cons a xs)
  then show ?case by (cases "xs @ ys") auto
qed

lemma dep_chain_prefix: "dep_chain ts (xs @ ys) \<Longrightarrow> xs \<noteq> [] \<Longrightarrow> dep_chain ts xs"
proof (induction ys rule: rev_induct)
  case Nil
  then show ?case by simp
next
  case (snoc y ys)
  from snoc.prems have "dep_chain ts ((xs @ ys) @ [y])" by simp
  moreover from snoc.prems(2) have "xs @ ys \<noteq> []" by simp
  ultimately have "dep_chain ts (xs @ ys)"
    using dep_chain_snoc [of "xs @ ys" ts y] by blast
  with snoc show ?case by simp
qed

lemma long_chain_cyclic:
  assumes "dep_chain ts c" "length ts < length c"
  shows "cyclic ts"
proof -
  have "\<not> distinct c"
  proof
    assume "distinct c"
    then have "length c = card (set c)" by (simp add: distinct_card)
    also have "\<dots> \<le> card (set ts)"
      using dep_chain_set [OF assms(1)] by (simp add: card_mono)
    also have "\<dots> \<le> length ts" by (rule card_length)
    finally show False using assms(2) by simp
  qed
  then obtain xs ys zs y where c: "c = xs @ [y] @ ys @ [y] @ zs"
    using not_distinct_decomp by blast
  with assms(1) have "dep_chain ts (xs @ (y # ys @ [y]) @ zs)" by simp
  then have "dep_chain ts ((y # ys @ [y]) @ zs)"
    by (rule dep_chain_suffix) simp
  then have "dep_chain ts (y # ys @ [y])"
    by (rule dep_chain_prefix) simp
  moreover have "2 \<le> length (y # ys @ [y])" by simp
  moreover have "name (hd (y # ys @ [y])) = name (last (y # ys @ [y]))" by simp
  ultimately show ?thesis unfolding cyclic_def by blast
qed

lemma visit_err:
  "(visit d (tasks_by_name tasks) t s = Inl e \<longrightarrow> t \<in> set tasks \<longrightarrow>
      (e = RecursionError \<and> (\<exists>c. dep_chain tasks c \<and> last c = t \<and> length c = Suc d)) \<or>
      (\<exists>k. e = KeyError k \<and> k \<notin> name ` set tasks \<and>
           (\<exists>u \<in> set tasks. k \<in> set (dependencies u))))"
  "(visit_deps d (tasks_by_name tasks) deps s = Inl e \<longrightarrow>
      (e = RecursionError \<and>
         (\<exists>c. dep_chain tasks c \<and> name (last c) \<in> set deps \<and> length c = Suc d)) \<or>
      (\<exists>k. e = KeyError k \<and> k \<notin> name ` set tasks \<and>
           (k \<in> set deps \<or> (\<exists>u \<in> set tasks. k \<in> set (dependencies u)))))"
proof (induction d "tasks_by_name tasks" t s and d "tasks_by_name tasks" deps s
        rule: visit_visit_deps.induct)
  case (1 t s)
  show ?case
  proof (intro impI)
    assume "visit 0 (tasks_by_name tasks) t s = Inl e" and t: "t \<in> set tasks"
    then have "e = RecursionError" by simp
    moreover from t have "dep_chain tasks [t] \<and> last [t] = t \<and> length [t] = Suc 0" by simp
    ultimately show "(e = RecursionError \<and>
        (\<exists>c. dep_chain tasks c \<and> last c = t \<and> length c = Suc 0)) \<or>
      (\<exists>k. e = KeyError k \<and> k \<notin> name ` set tasks \<and>
           (\<exists>u \<in> set tasks. k \<in> set (dependencies u)))"
      by blast
  qed
next
  case (2 d t s)
  show ?case
  proof (intro impI)
    assume v: "visit (Suc d) (tasks_by_name tasks) t s = Inl e" and t: "t \<in> set tasks"
    from v have vd: "visit_deps d (tasks_by_name tasks) (dependencies t) s = Inl e"
      by (auto split: sum.splits prod.splits if_splits)
    from 2 vd consider
      (rec) c where "e = RecursionError" "dep_chain tasks c"
        "name (last c) \<in> set (dependencies t)" "length c = Suc d"
      | (key) k where "e = KeyError k" "k \<notin> name ` set tasks"
        "k \<in> set (dependencies t) \<or> (\<exists>u \<in> set tasks. k \<in> set (dependencies u))"
      by blast
    then show "(e = RecursionError \<and>
        (\<exists>c. dep_chain tasks c \<and> last c = t \<and> length c = Suc (Suc d))) \<or>
      (\<exists>k. e = KeyError k \<and> k \<notin> name ` set tasks \<and>
           (\<exists>u \<in> set tasks. k \<in> set (dependencies u)))"
    proof cases
      case rec
      from rec(4) have ne: "c \<noteq> []" by auto
      with rec t have "dep_chain tasks (c @ [t])" by (simp add: dep_chain_snoc)
      moreover have "last (c @ [t]) = t" "length (c @ [t]) = Suc (Suc d)"
        using rec(4) by simp_all
      ultimately show ?thesis using rec(1) by blast
    next
      case key
      with t show ?thesis by blast
    qed
  qed
next
  case (3 d s)
  then show ?case by simp
next
  case (4 d dep deps s)
  show ?case
  proof (intro impI)
    assume v: "visit_deps d (tasks_by_name tasks) (dep # deps) s = Inl e"
    show "(e = RecursionError \<and>
         (\<exists>c. dep_chain tasks c \<and> name (last c) \<in> set (dep # deps) \<and> length c = Suc d)) \<or>
      (\<exists>k. e = KeyError k \<and> k \<notin> name ` set tasks \<and>
           (k \<in> set (dep # deps) \<or> (\<exists>u \<in> set tasks. k \<in> set (dependencies u))))"
    proof (cases "dep \<in> fst s")
      case True
      with v have "visit_deps d (tasks_by_name tasks) deps s = Inl e" by simp
      with 4(3) True show ?thesis by auto
    next
      case False
      show ?thesis
      proof (cases "tasks_by_name tasks dep")
        case None
        with v False have "e = KeyError dep" by simp
        moreover from None have "dep \<notin> name ` set tasks"
          using tasks_by_name_dom [of tasks] by auto
        ultimately show ?thesis by simp
      next
        case (Some t')
        from tasks_by_name_Some [OF Some] have t': "name t' = dep" "t' \<in> set tasks"
          by simp_all
        show ?thesis
        proof (cases "visit d (tasks_by_name tasks) t' s")
          case (Inl e')
          with v False Some have "e' = e" by simp
          with 4(1) [OF False Some] Inl t' show ?thesis by auto
        next
          case (Inr s1)
          with v False Some have "visit_deps d (tasks_by_name tasks) deps s1 = Inl e" by simp
          with 4(2) [OF False Some Inr] show ?thesis by auto
        qed
      qed
    qed
  qed
qed

lemma visit_all_err:
  "visit_all d (tasks_by_name tasks) ts s = Inl e \<Longrightarrow> set ts \<subseteq> set tasks \<Longrightarrow>
   visit_failure tasks d e"
proof (induction ts arbitrary: s)
  case Nil
  then show ?case by simp
next
  case (Cons t ts)
  show ?case
  proof (cases "visit d (tasks_by_name tasks) t s")
    case (Inl e')
    with Cons.prems have "e' = e" by simp
    with visit_err(1) [of d tasks t s e] Inl Cons.prems(2) show ?thesis
      unfolding visit_failure_def by auto
  next
    case (Inr s1)
    with Cons.prems have "visit_all d (tasks_by_name tasks) ts s1 = Inl e" by simp
    from Cons.IH [OF this] Cons.prems(2) show ?thesis by simp
  qed
qed

lemma topo_order_err:
  "topo_order d tasks = Inl e \<Longrightarrow> visit_failure tasks d e"
  using visit_all_err [of d tasks tasks "({}, [])" e]
  by (auto simp add: topo_order_def split: sum.splits)


lemma sorted_from_pos:
  "sorted_from S order \<Longrightarrow> distinct (map name order) \<Longrightarrow> S \<inter> name ` set order = {} \<Longrightarrow>
   b \<in> set order \<Longrightarrow> n \<in> set (dependencies b) \<Longrightarrow> n \<notin> S \<Longrightarrow>
   pos order n < pos order (name b)"
proof (induction order arbitrary: S)
  case Nil
  then show ?case by simp
next
  case (Cons t ts)
  from Cons.prems(1) have dt: "set (dependencies t) \<subseteq> S"
    and st: "sorted_from (insert (name t) S) ts" by simp_all
  from Cons.prems(5,6) dt have "b \<noteq> t" by auto
  with Cons.prems(4) have b: "b \<in> set ts" by simp
  with Cons.prems(2) have nb: "name t \<noteq> name b" by auto
  show ?case
  proof (cases "n = name t")
    case True
    with nb show ?thesis by simp
  next
    case False
    from Cons.prems(2,3) have "insert (name t) S \<inter> name ` set ts = {}" by auto
    from Cons.IH [OF st _ this b Cons.prems(5)] Cons.prems(2,6) False
    have "pos ts n < pos ts (name b)" by simp
    with nb False show ?thesis by simp
  qed
qed

lemma chain_pos_increases:
  assumes edge: "\<And>(a::task) (b::task). b \<in> set tasks \<Longrightarrow> name a \<in> set (dependencies b) \<Longrightarrow>
                   pos order (name a) < pos order (name b)"
  shows "dep_chain tasks ((a::task) # c) \<Longrightarrow> c \<noteq> [] \<Longrightarrow>
         pos order (name a) < pos order (name (last c))"
proof (induction c arbitrary: a)
  case Nil
  then show ?case by simp
next
  case (Cons b c)
  from Cons.prems(1) have ab: "name a \<in> set (dependencies b)" and bc: "dep_chain tasks (b # c)"
    by simp_all
  from bc have "b \<in> set tasks" using dep_chain_set by fastforce
  from edge [OF this ab] have 1: "pos order (name a) < pos order (name b)" .
  show ?case
  proof (cases "c = []")
    case True
    with 1 show ?thesis by simp
  next
    case False
    from Cons.IH [OF bc False] 1 False show ?thesis by simp
  qed
qed

lemma topo_order_acyclic:
  assumes "topo_order d tasks = Inr order" "distinct (map name tasks)"
  shows "\<not> cyclic tasks"
proof
  assume "cyclic tasks"
  then obtain c where c: "dep_chain tasks c" "2 \<le> length c" "name (hd c) = name (last c)"
    unfolding cyclic_def by blast
  note ok = topo_order_ok [OF assms(1)]
  have inj: "inj_on name (set tasks)"
    using assms(2) by (simp add: distinct_map)
  have sub: "set tasks \<subseteq> set order"
  proof
    fix b assume b: "b \<in> set tasks"
    with ok(4) obtain b' where b': "b' \<in> set order" "name b' = name b" by (metis imageE imageI)
    with ok(3) have "b' \<in> set tasks" by auto
    with inj b b'(2) have "b' = b" by (auto dest: inj_onD)
    with b'(1) show "b \<in> set order" by simp
  qed
  have edge: "pos order (name a) < pos order (name b)"
    if "b \<in> set tasks" "name a \<in> set (dependencies b)" for a b :: task
    using sorted_from_pos [OF ok(2) ok(1) _ _ that(2)] that(1) sub by auto
  from c(2) obtain a c' where cc: "c = a # c'" "c' \<noteq> []"
    by (cases c) (auto simp add: Suc_le_eq)
  from chain_pos_increases [of tasks order a c'] edge c(1) cc
  have "pos order (name a) < pos order (name (last c'))" by blast
  with c(3) cc show False by simp
qed

lemma topo_order_not_spec_error:
  "topo_order d tasks \<noteq> Inl UnknownDependency \<and> topo_order d tasks \<noteq> Inl CycleDetected"
  using topo_order_err [of d tasks] by (auto simp add: visit_failure_def)

lemma topo_order_dangling:
  assumes "\<not> well_referenced tasks"
  shows "\<exists>e. topo_order d tasks = Inl e \<and>
           (e = RecursionError \<or> (\<exists>k. e = KeyError k \<and> k \<notin> name ` set tasks))"
proof (cases "topo_order d tasks")
  case (Inl e)
  with topo_order_err [OF Inl] show ?thesis by (auto simp add: visit_failure_def)
next
  case (Inr order)
  with topo_order_ok(5) [OF Inr] assms show ?thesis by simp
qed

lemma topo_order_dangling_only:
  assumes "\<not> well_referenced tasks" "\<not> cyclic tasks" "length tasks \<le> d"
  shows "\<exists>k. topo_order d tasks = Inl (KeyError k) \<and> k \<notin> name ` set tasks"
proof -
  from topo_order_dangling [OF assms(1), of d] obtain e where
    e: "topo_order d tasks = Inl e" by blast
  from topo_order_err [OF e] have "\<exists>k. e = KeyError k \<and> k \<notin> name ` set tasks"
    unfolding visit_failure_def
  proof (elim disjE conjE exE)
    fix c assume "dep_chain tasks c" "d < length c"
    with assms(3) have "cyclic tasks" by (intro long_chain_cyclic [of tasks c]) simp_all
    with assms(2) show ?thesis by simp
  qed blast
  with e show ?thesis by blast
qed

lemma topo_order_cyclic:
  assumes "distinct (map name tasks)" "cyclic tasks"
  shows "\<exists>e. topo_order d tasks = Inl e \<and>
           (e = RecursionError \<or> (\<exists>k. e = KeyError k \<and> k \<notin> name ` set tasks))"
proof (cases "topo_order d tasks")
  case (Inl e)
  with topo_order_err [OF Inl] show ?thesis by (auto simp add: visit_failure_def)
next
  case (Inr order)
  with topo_order_acyclic [OF Inr assms(1)] assms(2) show ?thesis by simp
qed

lemma topo_order_cyclic_only:
  assumes "distinct (map name tasks)" "cyclic tasks" "well_referenced tasks"
  shows "topo_order d tasks = Inl RecursionError"
proof -
  from topo_order_cyclic [OF assms(1,2), of d] obtain e where
    e: "topo_order d tasks = Inl e" by blast
  from topo_order_err [OF e] assms(3) have "e = RecursionError"
    by (auto simp add: visit_failure_def well_referenced_def)
  with e show ?thesis by simp
qed






subsection \<open>The forward pass\<close>

text \<open>
  An entry, once written, is not changed by the rest of the pass when the names of the
  remaining tasks are distinct and not yet in the schedule; the start time computed for a
  task from the schedule at that moment is therefore the one the final schedule gives.
\<close>

lemma map_le_Some: "m \<subseteq>\<^sub>m m' \<Longrightarrow> m k = Some e \<Longrightarrow> m' k = Some e"
  by (metis domI map_le_def)

lemma dep_finishes_mono:
  "dep_finishes sched deps = Inr fs \<Longrightarrow> map_of sched \<subseteq>\<^sub>m map_of sched' \<Longrightarrow>
   dep_finishes sched' deps = Inr fs"
proof (induction deps arbitrary: fs)
  case Nil
  then show ?case by simp
next
  case (Cons dep deps)
  from Cons.prems(1) obtain e fs' where
    e: "map_of sched dep = Some e" and f: "dep_finishes sched deps = Inr fs'"
    and fs: "fs = entry_finish e # fs'"
    by (auto split: option.splits sum.splits)
  from map_le_Some [OF Cons.prems(2) e] have "map_of sched' dep = Some e" .
  with Cons.IH [OF f Cons.prems(2)] fs show ?case by simp
qed

lemma start_time_mono:
  assumes "start_time t sched = Inr st" "map_of sched \<subseteq>\<^sub>m map_of sched'"
  shows "start_time t sched' = Inr st"
proof (cases "dependencies t = []")
  case True
  with assms(1) show ?thesis by (simp add: start_time_def)
next
  case False
  with assms(1) obtain fs where f: "dep_finishes sched (dependencies t) = Inr fs"
    and m: "py_max fs = Inr st"
    by (auto simp add: start_time_def split: sum.splits)
  from dep_finishes_mono [OF f assms(2)] m False show ?thesis
    by (simp add: start_time_def)
qed

lemma map_le_update:
  "k \<notin> fst ` set sched \<Longrightarrow> map_of sched \<subseteq>\<^sub>m map_of (AList.update k v sched)"
  by (auto simp add: update_conv' map_le_def dom_map_of_conv_image_fst)

lemma compute_schedule_entries:
  "compute_schedule ts sched r = Inr (sched', r') \<Longrightarrow> distinct (map name ts) \<Longrightarrow>
   name ` set ts \<inter> fst ` set sched = {} \<Longrightarrow>
   map_of sched \<subseteq>\<^sub>m map_of sched' \<and>
   (\<forall>t \<in> set ts. \<exists>e. map_of sched' (name t) = Some e \<and>
        entry_finish e = entry_start e + entry_duration e \<and>
        start_time t sched' = Inr (entry_start e) \<and>
        entry_base e = base_duration t)"
proof (induction ts arbitrary: sched r)
  case Nil
  then show ?case by simp
next
  case (Cons t ts)
  from Cons.prems(1) obtain st where st: "start_time t sched = Inr st"
    by (auto split: sum.splits)
  obtain dur r1 where sd: "simulate_duration t r = (dur, r1)"
    by (cases "simulate_duration t r")
  define e where "e = (st, st + dur, dur, value_added t, base_duration t)"
  define s1 where "s1 = AList.update (name t) e sched"
  from Cons.prems(1) st sd have c: "compute_schedule ts s1 r1 = Inr (sched', r')"
    by (simp add: s1_def e_def)
  from Cons.prems(2) have d: "distinct (map name ts)" and nt: "name t \<notin> name ` set ts"
    by auto
  from Cons.prems(3) have fresh: "name t \<notin> fst ` set sched" by auto
  have "fst ` set s1 = insert (name t) (fst ` set sched)"
    using dom_update [of "name t" e sched]
    by (simp add: s1_def dom_map_of_conv_image_fst)
  with Cons.prems(3) nt have disj: "name ` set ts \<inter> fst ` set s1 = {}"
    by auto
  from Cons.IH [OF c d disj] have
    keep: "map_of s1 \<subseteq>\<^sub>m map_of sched'" and
    rest: "\<forall>t \<in> set ts. \<exists>e. map_of sched' (name t) = Some e \<and>
        entry_finish e = entry_start e + entry_duration e \<and>
        start_time t sched' = Inr (entry_start e) \<and> entry_base e = base_duration t"
    by simp_all
  have "map_of sched \<subseteq>\<^sub>m map_of s1"
    unfolding s1_def by (rule map_le_update [OF fresh])
  from this keep have old: "map_of sched \<subseteq>\<^sub>m map_of sched'"
    by (rule map_le_trans)
  have "map_of s1 (name t) = Some e" by (simp add: s1_def update_conv')
  from map_le_Some [OF keep this] have me: "map_of sched' (name t) = Some e" .
  have "start_time t sched' = Inr st"
    by (rule start_time_mono [OF st old])
  with me have "map_of sched' (name t) = Some e \<and>
        entry_finish e = entry_start e + entry_duration e \<and>
        start_time t sched' = Inr (entry_start e) \<and> entry_base e = base_duration t"
    by (simp add: e_def entry_finish_def entry_start_def entry_duration_def entry_base_def)
  then have "\<exists>e. map_of sched' (name t) = Some e \<and>
        entry_finish e = entry_start e + entry_duration e \<and>
        start_time t sched' = Inr (entry_start e) \<and> entry_base e = base_duration t"
    by blast
  with rest old show ?case by simp
qed

lemma dep_finishes_Inr:
  "dep_finishes sched deps = Inr fs \<Longrightarrow>
   fs = map (\<lambda>d. entry_finish (the (map_of sched d))) deps \<and> set deps \<subseteq> fst ` set sched"
proof (induction deps arbitrary: fs)
  case Nil
  then show ?case by simp
next
  case (Cons dep deps)
  from Cons.prems obtain e fs' where
    e: "map_of sched dep = Some e" and f: "dep_finishes sched deps = Inr fs'"
    and fs: "fs = entry_finish e # fs'"
    by (auto split: option.splits sum.splits)
  from e have "dep \<in> fst ` set sched" by (metis domI dom_map_of_conv_image_fst)
  with Cons.IH [OF f] e fs show ?case by simp
qed

lemma start_time_Inr:
  assumes "start_time t sched = Inr st"
  shows "(dependencies t = [] \<longrightarrow> st = 0) \<and>
         (dependencies t \<noteq> [] \<longrightarrow>
            set (dependencies t) \<subseteq> fst ` set sched \<and>
            st = Max ((\<lambda>d. entry_finish (the (map_of sched d))) ` set (dependencies t)))"
proof (cases "dependencies t = []")
  case True
  with assms show ?thesis by (simp add: start_time_def)
next
  case False
  with assms obtain fs where f: "dep_finishes sched (dependencies t) = Inr fs"
    and m: "py_max fs = Inr st"
    by (auto simp add: start_time_def split: sum.splits)
  from dep_finishes_Inr [OF f] have
    fs: "fs = map (\<lambda>d. entry_finish (the (map_of sched d))) (dependencies t)"
    and sub: "set (dependencies t) \<subseteq> fst ` set sched" by simp_all
  from fs False have "fs \<noteq> []" by simp
  from py_max_eq [OF this] m have "st = Max (set fs)" by simp
  with fs sub False show ?thesis by simp
qed



lemma simulate_project_half:
  "simulate_project True 0 half_draws =
     Inr (Detailed (project_schedule (25 / 2) (13 / 2)) 114 105 (100 * (105 / 114)),
          half_draws)"
proof -
  let ?l = "Task Licenciamento 10 False (5 * (1 - 0)) 0.8 [Planejamento]"
  let ?m = "Task Mobilizacao 5 False (3 * (1 - 0)) 0.7 [Licenciamento]"
  have b1: "simulate_duration ?l half_draws = (25 / 2, half_draws)"
    by (simp add: simulate_duration_eq Task_def advance_half_draws) (simp add: half_draws_def)
  have b2: "simulate_duration ?m half_draws = (13 / 2, half_draws)"
    by (simp add: simulate_duration_eq Task_def advance_half_draws) (simp add: half_draws_def)
  show ?thesis
    unfolding simulate_project_eq b1 b2 Let_def prod.case by simp
qed


subsection \<open>The total duration\<close>

lemma sinks_project: "sinks (project_tasks li) = [Task Inspecao 5 True 0 1 [Acabamentos]]"
  by (simp add: sinks_def project_tasks_def Task_def)

lemma run_tasks_total:
  assumes "run_tasks d tasks r = Inr ((sched, td, tva, eff), r')"
  shows "total_duration_of sched = Inr td"
  using assms
  by (auto simp add: run_tasks_def Let_def split: sum.splits prod.splits if_splits)

lemma total_duration_of_Inr:
  assumes "total_duration_of sched = Inr td"
  shows "case map_of sched Inspecao of
           Some e \<Rightarrow> td = entry_finish e
         | None \<Rightarrow> sched \<noteq> [] \<and> td = Max ((\<lambda>p. entry_finish (snd p)) ` set sched)"
proof (cases "map_of sched Inspecao")
  case None
  with assms have m: "py_max (map (\<lambda>p. entry_finish (snd p)) sched) = Inr td"
    by (simp add: total_duration_of_def)
  then have ne: "sched \<noteq> []" by (auto simp add: py_max_def)
  then have "map (\<lambda>p. entry_finish (snd p)) sched \<noteq> []" by simp
  from py_max_eq [OF this] m have "td = Max ((\<lambda>p. entry_finish (snd p)) ` set sched)"
    by simp
  with None ne show ?thesis by simp
next
  case (Some e)
  with assms show ?thesis by (simp add: total_duration_of_def)
qed

lemma simulate_project_Detailed:
  assumes "simulate_project True li r = Inr (Detailed sched td tva eff, r')"
  shows "\<exists>d1 d2. sched = project_schedule d1 d2 \<and> td = 95 + d1 + d2"
  using assms unfolding simulate_project_eq
  by (auto simp add: Let_def split: prod.splits if_splits)

lemma project_schedule_Inspecao:
  "map_of (project_schedule d1 d2) Inspecao = Some (90 + d1 + d2, 95 + d1 + d2, 5, True, 5)"
  by (simp add: project_schedule_def)

text \<open>
  On a task list without a task named \<open>Inspecao\<close> the total duration would be the maximum
  finish time over all entries.  When no realized duration is negative, a task finishes no later than every task
  that depends on it, so that this maximum is attained at a sink.
\<close>

lemma pos_less_length: "n \<in> name ` set order \<Longrightarrow> pos order n < length order"
  by (induction order) auto

lemma compute_schedule_keys:
  "compute_schedule ts sched r = Inr (sched', r') \<Longrightarrow>
   fst ` set sched' = fst ` set sched \<union> name ` set ts"
proof (induction ts arbitrary: sched r)
  case Nil
  then show ?case by auto
next
  case (Cons t ts)
  from Cons.prems obtain st where st: "start_time t sched = Inr st"
    by (auto split: sum.splits)
  obtain dur r1 where sd: "simulate_duration t r = (dur, r1)"
    by (cases "simulate_duration t r")
  define e where "e = (st, st + dur, dur, value_added t, base_duration t)"
  define s1 where "s1 = AList.update (name t) e sched"
  from Cons.prems st sd have c: "compute_schedule ts s1 r1 = Inr (sched', r')"
    by (simp add: s1_def e_def)
  have "fst ` set s1 = insert (name t) (fst ` set sched)"
    using dom_update [of "name t" e sched]
    by (simp add: s1_def dom_map_of_conv_image_fst)
  with Cons.IH [OF c] show ?case by auto
qed

lemma compute_schedule_distinct:
  "compute_schedule ts sched r = Inr (sched', r') \<Longrightarrow> distinct (map fst sched) \<Longrightarrow>
   distinct (map fst sched')"
proof (induction ts arbitrary: sched r)
  case Nil
  then show ?case by auto
next
  case (Cons t ts)
  from Cons.prems obtain st where st: "start_time t sched = Inr st"
    by (auto split: sum.splits)
  obtain dur r1 where sd: "simulate_duration t r = (dur, r1)"
    by (cases "simulate_duration t r")
  define e where "e = (st, st + dur, dur, value_added t, base_duration t)"
  define s1 where "s1 = AList.update (name t) e sched"
  from Cons.prems st sd have c: "compute_schedule ts s1 r1 = Inr (sched', r')"
    by (simp add: s1_def e_def)
  have "distinct (map fst s1)"
    unfolding s1_def using Cons.prems(2) by (rule distinct_update)
  from Cons.IH [OF c this] show ?case .
qed

lemma topo_order_set:
  assumes "topo_order d tasks = Inr order" "distinct (map name tasks)"
  shows "set order = set tasks"
proof
  show "set order \<subseteq> set tasks" by (rule topo_order_ok(3) [OF assms(1)])
  have inj: "inj_on name (set tasks)"
    using assms(2) by (simp add: distinct_map)
  show "set tasks \<subseteq> set order"
  proof
    fix b assume b: "b \<in> set tasks"
    with topo_order_ok(4) [OF assms(1)] obtain b' where
      b': "b' \<in> set order" "name b' = name b" by (metis imageE imageI)
    with topo_order_ok(3) [OF assms(1)] have "b' \<in> set tasks" by auto
    with inj b b'(2) have "b' = b" by (auto dest: inj_onD)
    with b'(1) show "b \<in> set order" by simp
  qed
qed

lemma sink_dominates:
  assumes ord: "distinct (map name order)" "sorted_from {} order"
    and edge: "\<And>t u. t \<in> set order \<Longrightarrow> u \<in> set order \<Longrightarrow>
                 name t \<in> set (dependencies u) \<Longrightarrow> F t \<le> (F u :: real)"
  shows "t \<in> set order \<Longrightarrow> \<exists>s \<in> set (sinks order). F t \<le> F s"
proof (induction "length order - pos order (name t)" arbitrary: t rule: less_induct)
  case less
  show ?case
  proof (cases "\<forall>u \<in> set order. name t \<notin> set (dependencies u)")
    case True
    with less.prems have "t \<in> set (sinks order)" by (simp add: sinks_def)
    then show ?thesis by auto
  next
    case False
    then obtain u where u: "u \<in> set order" "name t \<in> set (dependencies u)" by blast
    from sorted_from_pos [OF ord(2) ord(1) _ u] have
      lt: "pos order (name t) < pos order (name u)" by simp
    from u(1) have "pos order (name u) < length order" by (intro pos_less_length) simp
    with lt have "length order - pos order (name u) < length order - pos order (name t)"
      by simp
    from less.hyps [OF this u(1)] obtain s where s: "s \<in> set (sinks order)" "F u \<le> F s"
      by blast
    from edge [OF less.prems u] s(2) have "F t \<le> F s" by simp
    with s(1) show ?thesis by blast
  qed
qed

lemma set_sinks: "set (sinks l) = {t \<in> set l. \<forall>u \<in> set l. name t \<notin> set (dependencies u)}"
  by (auto simp add: sinks_def)

lemma max_finish_at_sinks:
  assumes run: "run_tasks d tasks r = Inr ((sched, td, tva, eff), r')"
    and dn: "distinct (map name tasks)"
    and nonneg: "\<forall>p \<in> set sched. 0 \<le> entry_duration (snd p)"
    and ne: "tasks \<noteq> []"
  shows "sinks tasks \<noteq> [] \<and>
         Max ((\<lambda>p. entry_finish (snd p)) ` set sched) =
         Max ((\<lambda>s. entry_finish (the (map_of sched (name s)))) ` set (sinks tasks))"
proof -
  define F where "F t = entry_finish (the (map_of sched (name t)))" for t :: task
  from run obtain order where o: "topo_order d tasks = Inr order"
    and c: "compute_schedule order [] r = Inr (sched, r')"
    by (auto simp add: run_tasks_def Let_def split: sum.splits prod.splits if_splits)
  note ok = topo_order_ok [OF o]
  from topo_order_set [OF o dn] have so: "set order = set tasks" .
  from compute_schedule_keys [OF c] so have keys: "fst ` set sched = name ` set tasks"
    by simp
  from compute_schedule_distinct [OF c] have ds: "distinct (map fst sched)" by simp
  from compute_schedule_entries [OF c ok(1)] so have
    ent: "\<forall>t \<in> set tasks. \<exists>e. map_of sched (name t) = Some e \<and>
        entry_finish e = entry_start e + entry_duration e \<and>
        start_time t sched = Inr (entry_start e)"
    by auto
  have img: "(\<lambda>p. entry_finish (snd p)) ` set sched = F ` set tasks"
  proof (intro equalityI subsetI)
    fix x assume "x \<in> (\<lambda>p. entry_finish (snd p)) ` set sched"
    then obtain k e where p: "(k, e) \<in> set sched" "x = entry_finish e" by auto
    from p(1) ds have m: "map_of sched k = Some e" by simp
    from p(1) keys obtain t where t: "t \<in> set tasks" "name t = k" by force
    with m p(2) have "x = F t" by (simp add: F_def)
    with t(1) show "x \<in> F ` set tasks" by simp
  next
    fix x assume "x \<in> F ` set tasks"
    then obtain t where t: "t \<in> set tasks" "x = F t" by auto
    with ent obtain e where e: "map_of sched (name t) = Some e" by blast
    then have "(name t, e) \<in> set sched" by (rule map_of_SomeD)
    moreover from e t(2) have "x = entry_finish (snd (name t, e))" by (simp add: F_def)
    ultimately show "x \<in> (\<lambda>p. entry_finish (snd p)) ` set sched" by blast
  qed
  have edge: "F t \<le> F u"
    if "t \<in> set order" "u \<in> set order" "name t \<in> set (dependencies u)" for t u
  proof -
    from that(2) so ent obtain e where e: "map_of sched (name u) = Some e"
      "entry_finish e = entry_start e + entry_duration e"
      "start_time u sched = Inr (entry_start e)" by blast
    from that(3) have "dependencies u \<noteq> []" by auto
    with start_time_Inr [OF e(3)] have
      "entry_start e = Max ((\<lambda>d. entry_finish (the (map_of sched d))) ` set (dependencies u))"
      by simp
    moreover have "entry_finish (the (map_of sched (name t))) \<le>
        Max ((\<lambda>d. entry_finish (the (map_of sched d))) ` set (dependencies u))"
      using that(3) by (intro Max_ge) auto
    ultimately have "F t \<le> entry_start e" by (simp add: F_def)
    moreover from e(1) have "(name u, e) \<in> set sched" by (rule map_of_SomeD)
    with nonneg have "0 \<le> entry_duration e" by force
    ultimately show ?thesis using e(1,2) by (simp add: F_def)
  qed
  have ss: "set (sinks order) = set (sinks tasks)"
    by (simp add: set_sinks so)
  have dom: "\<exists>s \<in> set (sinks tasks). F t \<le> F s" if "t \<in> set tasks" for t
    using sink_dominates [of order F t, OF ok(1) ok(2) edge] that so ss by simp
  from ne obtain t0 where "t0 \<in> set tasks" by (cases tasks) auto
  from dom [OF this] have sne: "sinks tasks \<noteq> []" by auto
  have sub: "set (sinks tasks) \<subseteq> set tasks" by (auto simp add: set_sinks)
  have "Max (F ` set tasks) = Max (F ` set (sinks tasks))"
  proof (rule antisym)
    from ne have "Max (F ` set tasks) \<in> F ` set tasks" by (intro Max_in) auto
    then obtain t where t: "t \<in> set tasks" "Max (F ` set tasks) = F t" by auto
    from dom [OF t(1)] obtain s where s: "s \<in> set (sinks tasks)" "F t \<le> F s" by blast
    from s(1) have "F s \<le> Max (F ` set (sinks tasks))" by (intro Max_ge) auto
    with s(2) t(2) show "Max (F ` set tasks) \<le> Max (F ` set (sinks tasks))" by simp
  next
    show "Max (F ` set (sinks tasks)) \<le> Max (F ` set tasks)"
      using sne sub by (intro Max_mono) auto
  qed
  with img sne show ?thesis by (simp add: F_def)
qed

lemma set_update_cases: "p \<in> set (AList.update k v al) \<Longrightarrow> p = (k, v) \<or> p \<in> set al"
  by (induction al) (auto split: if_splits)

lemma compute_schedule_nonneg:
  "compute_schedule ts sched r = Inr (sched', r') \<Longrightarrow> unit_draws r \<Longrightarrow>
   \<forall>t \<in> set ts. 0 \<le> base_duration t \<Longrightarrow>
   \<forall>p \<in> set sched. 0 \<le> entry_duration (snd p) \<Longrightarrow>
   \<forall>p \<in> set sched'. 0 \<le> entry_duration (snd p)"
proof (induction ts arbitrary: sched r)
  case Nil
  then show ?case by simp
next
  case (Cons t ts)
  from Cons.prems(1) obtain st where st: "start_time t sched = Inr st"
    by (auto split: sum.splits)
  obtain dur r1 where sd: "simulate_duration t r = (dur, r1)"
    by (cases "simulate_duration t r")
  define e where "e = (st, st + dur, dur, value_added t, base_duration t)"
  define s1 where "s1 = AList.update (name t) e sched"
  from Cons.prems(1) st sd have c: "compute_schedule ts s1 r1 = Inr (sched', r')"
    by (simp add: s1_def e_def)
  from simulate_duration_ge_base [OF Cons.prems(2), of t] sd Cons.prems(3)
  have "0 \<le> dur" by simp
  then have "0 \<le> entry_duration e" by (simp add: e_def entry_duration_def)
  with Cons.prems(4) have n1: "\<forall>p \<in> set s1. 0 \<le> entry_duration (snd p)"
    unfolding s1_def by (auto dest: set_update_cases)
  from simulate_duration_unit [OF Cons.prems(2), of t] sd have u1: "unit_draws r1" by simp
  from Cons.prems(3) have "\<forall>t \<in> set ts. 0 \<le> base_duration t" by simp
  from Cons.IH [OF c u1 this n1] show ?case .
qed

lemma total_duration_sinks:
  assumes run: "run_tasks d tasks r = Inr ((sched, td, tva, eff), r')"
    and dn: "distinct (map name tasks)"
    and ni: "Inspecao \<notin> name ` set tasks"
    and u: "unit_draws r"
    and base: "\<forall>t \<in> set tasks. 0 \<le> base_duration t"
  shows "sinks tasks \<noteq> [] \<and>
         td = Max ((\<lambda>s. entry_finish (the (map_of sched (name s)))) ` set (sinks tasks))"
proof -
  from run obtain order where o: "topo_order d tasks = Inr order"
    and c: "compute_schedule order [] r = Inr (sched, r')"
    by (auto simp add: run_tasks_def Let_def split: sum.splits prod.splits if_splits)
  from topo_order_set [OF o dn] have so: "set order = set tasks" .
  from compute_schedule_keys [OF c] so have keys: "fst ` set sched = name ` set tasks"
    by simp
  with ni have none: "map_of sched Inspecao = None"
    by (simp add: map_of_eq_None_iff)
  from total_duration_of_Inr [OF run_tasks_total [OF run]] none have
    ne: "sched \<noteq> []" and td: "td = Max ((\<lambda>p. entry_finish (snd p)) ` set sched)"
    by simp_all
  from ne keys have tn: "tasks \<noteq> []" by auto
  from compute_schedule_nonneg [OF c u] base so have
    "\<forall>p \<in> set sched. 0 \<le> entry_duration (snd p)" by simp
  from max_finish_at_sinks [OF run dn this tn] td show ?thesis by simp
qed

text \<open>
  Claim C5.  The tasks of the built-in project on which no task depends are the single task
  \<open>Inspecao\<close>.  In every run of \<open>simulate_project\<close> that returns, the total duration is
  the finish time of the entry of that sink, which is also the maximum finish time among
  the sinks; a run that returns only the summary reports the same total duration as the
  run with the schedule; and the run returns when the draws are in \<open>[0, 1)\<close>.
\<close>

theorem total_duration_sink:
  "sinks (project_tasks li) = [Task Inspecao 5 True 0 1 [Acabamentos]] \<and>
   (simulate_project True li r = Inr (Detailed sched td tva eff, r') \<longrightarrow>
      (\<forall>s \<in> set (sinks (project_tasks li)).
         \<exists>e. map_of sched (name s) = Some e \<and> td = entry_finish e) \<and>
      py_max (map (\<lambda>s. entry_finish (the (map_of sched (name s)))) (sinks (project_tasks li)))
        = Inr td) \<and>
   (simulate_project False li r = Inr (Summary td tva eff, r') \<longrightarrow>
      (\<exists>sched. simulate_project True li r = Inr (Detailed sched td tva eff, r'))) \<and>
   (unit_draws r \<longrightarrow>
      (\<exists>sched td tva eff r'. simulate_project True li r = Inr (Detailed sched td tva eff, r')))"
proof -
  have 1: "sinks (project_tasks li) = [Task Inspecao 5 True 0 1 [Acabamentos]]"
    by (rule sinks_project)
  have n: "name (Task Inspecao 5 True 0 1 [Acabamentos]) = Inspecao"
    by (simp add: Task_def)
  have 2: "simulate_project True li r = Inr (Detailed sched td tva eff, r') \<longrightarrow>
      (\<forall>s \<in> set (sinks (project_tasks li)).
         \<exists>e. map_of sched (name s) = Some e \<and> td = entry_finish e) \<and>
      py_max (map (\<lambda>s. entry_finish (the (map_of sched (name s)))) (sinks (project_tasks li)))
        = Inr td"
  proof
    assume "simulate_project True li r = Inr (Detailed sched td tva eff, r')"
    from simulate_project_Detailed [OF this] obtain d1 d2 where
      "sched = project_schedule d1 d2" "td = 95 + d1 + d2" by blast
    then have m: "map_of sched Inspecao = Some (90 + d1 + d2, 95 + d1 + d2, 5, True, 5) \<and>
        td = entry_finish (90 + d1 + d2, 95 + d1 + d2, 5, True, 5)"
      using project_schedule_Inspecao [of d1 d2]
      by (simp only: entry_finish_def fst_conv snd_conv)
    then have "\<exists>e. map_of sched Inspecao = Some e \<and> td = entry_finish e" by blast
    then have a: "\<forall>s \<in> set (sinks (project_tasks li)).
           \<exists>e. map_of sched (name s) = Some e \<and> td = entry_finish e"
      by (simp only: sinks_project list.set ball_simps n simp_thms)
    from m have "entry_finish (the (map_of sched Inspecao)) = td" by (simp only: option.sel)
    then have b: "py_max (map (\<lambda>s. entry_finish (the (map_of sched (name s))))
        (sinks (project_tasks li))) = Inr td"
      unfolding sinks_project list.map n by (simp only: py_max_def list.case fold.simps id_apply)
    from a b show "(\<forall>s \<in> set (sinks (project_tasks li)).
         \<exists>e. map_of sched (name s) = Some e \<and> td = entry_finish e) \<and>
      py_max (map (\<lambda>s. entry_finish (the (map_of sched (name s)))) (sinks (project_tasks li)))
        = Inr td"
      by (rule conjI)
  qed
  have 3: "unit_draws r \<longrightarrow>
      (\<exists>sched td tva eff r'. simulate_project True li r = Inr (Detailed sched td tva eff, r'))"
  proof
    assume "unit_draws r"
    from simulate_project_unit [OF this, of li]
    show "\<exists>sched td tva eff r'. simulate_project True li r = Inr (Detailed sched td tva eff, r')"
      by blast
  qed
  have 4: "simulate_project False li r = Inr (Summary td tva eff, r') \<longrightarrow>
      (\<exists>sched. simulate_project True li r = Inr (Detailed sched td tva eff, r'))"
    unfolding simulate_project_eq
    by (auto simp add: Let_def split: prod.splits if_splits)
  show ?thesis by (rule conjI [OF 1 conjI [OF 2 conjI [OF 4 3]]])
qed

theorem total_duration_sink_witness:
  "(\<exists>e. map_of (project_schedule (25 / 2) (13 / 2)) Inspecao = Some e \<and> 114 = entry_finish e) \<and>
   sinks (project_tasks 0) = [Task Inspecao 5 True 0 1 [Acabamentos]] \<and>
   py_max (map (\<lambda>s. entry_finish (the (map_of (project_schedule (25 / 2) (13 / 2)) (name s))))
             (sinks (project_tasks 0))) = Inr 114 \<and>
   (\<exists>sched td tva eff r'.
      simulate_project True 0 half_draws = Inr (Detailed sched td tva eff, r'))"
proof -
  note t = total_duration_sink [of 0 half_draws
      "project_schedule (25 / 2) (13 / 2)" 114 105 "100 * (105 / 114)" half_draws]
  have s: "Task Inspecao 5 True 0 1 [Acabamentos] \<in> set (sinks (project_tasks 0))"
    by (simp add: sinks_project)
  from t simulate_project_half have
    a: "\<forall>s \<in> set (sinks (project_tasks 0)).
       \<exists>e. map_of (project_schedule (25 / 2) (13 / 2)) (name s) = Some e \<and> 114 = entry_finish e"
    and b: "py_max (map (\<lambda>s. entry_finish (the (map_of (project_schedule (25 / 2) (13 / 2))
              (name s)))) (sinks (project_tasks 0))) = Inr 114"
    by blast+
  from a s have "\<exists>e. map_of (project_schedule (25 / 2) (13 / 2))
        (name (Task Inspecao 5 True 0 1 [Acabamentos])) = Some e \<and> 114 = entry_finish e"
    by blast
  moreover have "name (Task Inspecao 5 True 0 1 [Acabamentos]) = Inspecao"
    by (simp add: Task_def)
  ultimately have 1: "\<exists>e. map_of (project_schedule (25 / 2) (13 / 2)) Inspecao = Some e \<and>
      114 = entry_finish e"
    by (simp only:)
  from t have 2: "sinks (project_tasks 0) = [Task Inspecao 5 True 0 1 [Acabamentos]]" by blast
  from t unit_half_draws have 3: "\<exists>sched td tva eff r'.
      simulate_project True 0 half_draws = Inr (Detailed sched td tva eff, r')"
    by blast
  show ?thesis by (rule conjI [OF 1 conjI [OF 2 conjI [OF b 3]]])
qed

end
